theory Spec2Isabelle
  imports Main "HOL-Library.AList"
begin

section \<open>The RPC correlator (api/index.js, sendRpc and the reply consumers of setupRabbitMQ)\<close>

text \<open>
  One correlator is one pending map with its reply queue; the gateway has two of them
  (\<^verbatim>\<open>pendingItemRequests\<close>, \<^verbatim>\<open>pendingUserRequests\<close>), which share no state, so one is modelled.

  Every \<^verbatim>\<open>new Promise\<close> of \<^verbatim>\<open>sendRpc\<close> gets the next natural number as its identity. The two
  functions of a promise are first-class values: \<open>Resolve n\<close> and \<open>Reject n\<close> are the
  \<^verbatim>\<open>resolve\<close> and \<^verbatim>\<open>reject\<close> of promise \<open>n\<close>. The pending map stores such functions, as the
  JavaScript \<^verbatim>\<open>Map\<close> does. Calling one of them is recorded in \<open>settled\<close>, in call order, so that
  a second call on the same promise would be visible (the promise itself would ignore it).
  What a function is called with is a parsed reply (\<open>Envelope\<close>), the \<^verbatim>\<open>new Error(message)\<close> of
  the timer (\<open>Error\<close>), or the error that \<^verbatim>\<open>sendToQueue\<close> threw (\<open>Thrown\<close>).

  Three things belong to the environment and are inputs of the model. The correlation token
  is the result of \<^verbatim>\<open>generateUuid()\<close>, a random number and the clock. \<^verbatim>\<open>JSON.parse\<close> belongs to the
  runtime: it is the parameter \<open>parse\<close>, with \<open>None\<close> for a thrown \<^verbatim>\<open>SyntaxError\<close>.
  \<^verbatim>\<open>amqpChannel.sendToQueue\<close> belongs to the broker client: it either returns (\<open>Sent\<close>) or
  throws (\<open>Throws e\<close>), as it does on a closed channel.
\<close>

type_synonym token = string

datatype error = SyntaxError | TypeError

datatype 'a jsval = Envelope 'a | Error string | Thrown string

datatype settle_fn = Resolve nat | Reject nat

datatype 'a settlement = Fulfilled "'a jsval" | Rejected "'a jsval"

datatype send_result = Sent | Throws string

record 'p request =
  queue :: string
  command :: string
  payload :: 'p
  request_correlationId :: token
  replyTo :: string

record msg =
  correlationId :: token
  content :: string

record ('p, 'a) gateway =
  pendingMap :: "(token \<times> settle_fn) list"
  timers :: "(nat \<times> token \<times> nat) list"
  sent :: "'p request list"
  settled :: "(nat \<times> 'a settlement) list"
  promises :: nat

text \<open>
  What running a callback gives: the state it leaves behind, or (\<open>Inl\<close>) the exception that
  left it together with the state at that moment.
\<close>

type_synonym ('p, 'a) completion = "(error \<times> ('p, 'a) gateway) + ('p, 'a) gateway"

definition init :: "('p, 'a) gateway" where
  "init = \<lparr>pendingMap = [], timers = [], sent = [], settled = [], promises = 0\<rparr>"

text \<open>Calling a stored function: \<^verbatim>\<open>resolver(value)\<close>, \<^verbatim>\<open>reject(new Error(...))\<close>.\<close>

fun invoke :: "settle_fn \<Rightarrow> 'a jsval \<Rightarrow> ('p, 'a) gateway \<Rightarrow> ('p, 'a) gateway" where
  "invoke (Resolve n) v s = s\<lparr>settled := settled s @ [(n, Fulfilled v)]\<rparr>"
| "invoke (Reject n) v s = s\<lparr>settled := settled s @ [(n, Rejected v)]\<rparr>"

text \<open>
  \<^verbatim>\<open>sendRpc(queue, replyQueue, pendingMap, command, payload)\<close>, with the token that
  \<^verbatim>\<open>generateUuid()\<close> returned and with what \<^verbatim>\<open>sendToQueue\<close> does. The executor of the promise runs
  \<^verbatim>\<open>pendingMap.set(correlationId, resolve)\<close>, then \<^verbatim>\<open>sendToQueue\<close>, then \<^verbatim>\<open>setTimeout(..., 5000)\<close>.
  When \<^verbatim>\<open>sendToQueue\<close> returns, the request is in \<open>sent\<close> (its body is
  \<^verbatim>\<open>JSON.stringify({ command, payload })\<close>; \<open>sent\<close> keeps the command and the payload
  themselves) and the timer is armed: its closure holds the token and the promise's
  \<^verbatim>\<open>reject\<close>, and it is stored under the promise's number with its delay. When \<^verbatim>\<open>sendToQueue\<close>
  throws, the executor is left at that point: the entry is in the map, no timer is armed,
  and the \<^verbatim>\<open>Promise\<close> constructor calls the promise's \<^verbatim>\<open>reject\<close> with what was thrown. No
  exception leaves \<^verbatim>\<open>sendRpc\<close>: it returns the rejected promise.
\<close>

definition sendRpc ::
  "string \<Rightarrow> string \<Rightarrow> token \<Rightarrow> string \<Rightarrow> 'p \<Rightarrow> send_result \<Rightarrow> ('p, 'a) gateway
     \<Rightarrow> ('p, 'a) gateway" where
  "sendRpc q replyQueue tok cmd pl sendToQueue s =
     (let registered = s\<lparr>pendingMap := AList.update tok (Resolve (promises s)) (pendingMap s),
                          promises := Suc (promises s)\<rparr>
      in case sendToQueue of
           Sent \<Rightarrow>
             registered
               \<lparr>sent := sent s @ [\<lparr>queue = q, command = cmd, payload = pl,
                                    request_correlationId = tok, replyTo = replyQueue\<rparr>],
                timers := AList.update (promises s) (tok, 5000) (timers s)\<rparr>
         | Throws e \<Rightarrow> invoke (Reject (promises s)) (Thrown e) registered)"

text \<open>
  The callback given to \<^verbatim>\<open>amqpChannel.consume\<close>: look the token up; when a function is there,
  parse the body (which may throw, before anything else is done), call the function, delete
  the entry.
\<close>

definition consumer ::
  "(string \<Rightarrow> 'a option) \<Rightarrow> msg \<Rightarrow> ('p, 'a) gateway \<Rightarrow> ('p, 'a) completion" where
  "consumer parse m s =
     (case map_of (pendingMap s) (correlationId m) of
        None \<Rightarrow> Inr s
      | Some resolver \<Rightarrow>
          (case parse (content m) of
             None \<Rightarrow> Inl (SyntaxError, s)
           | Some v \<Rightarrow>
               Inr ((invoke resolver (Envelope v) s)
                      \<lparr>pendingMap := AList.delete (correlationId m) (pendingMap s)\<rparr>)))"

text \<open>The callback given to \<^verbatim>\<open>setTimeout\<close> by the call with promise \<open>n\<close> and token \<open>tok\<close>.\<close>

definition on_timeout :: "nat \<Rightarrow> token \<Rightarrow> ('p, 'a) gateway \<Rightarrow> ('p, 'a) gateway" where
  "on_timeout n tok s =
     (if map_of (pendingMap s) tok \<noteq> None
      then invoke (Reject n) (Error ''RPC timeout'')
             (s\<lparr>pendingMap := AList.delete tok (pendingMap s)\<rparr>)
      else s)"

text \<open>
  What the event loop runs, one callback at a time: a call of \<^verbatim>\<open>sendRpc\<close>, the delivery of a
  message on the reply queue, the firing of the timer of promise \<open>n\<close> (a timer fires once;
  firing one that is not armed does nothing). A run stops at the first exception that leaves
  a callback.
\<close>

datatype 'p event =
  Call string string token string 'p send_result
| Deliver msg
| Fire nat

fun step :: "(string \<Rightarrow> 'a option) \<Rightarrow> 'p event \<Rightarrow> ('p, 'a) gateway \<Rightarrow> ('p, 'a) completion" where
  "step parse (Call q replyQueue tok cmd pl sendToQueue) s =
     Inr (sendRpc q replyQueue tok cmd pl sendToQueue s)"
| "step parse (Deliver m) s = consumer parse m s"
| "step parse (Fire n) s =
     (case map_of (timers s) n of
        None \<Rightarrow> Inr s
      | Some (tok, delay) \<Rightarrow> Inr (on_timeout n tok (s\<lparr>timers := AList.delete n (timers s)\<rparr>)))"

fun run :: "(string \<Rightarrow> 'a option) \<Rightarrow> 'p event list \<Rightarrow> ('p, 'a) gateway \<Rightarrow> ('p, 'a) completion" where
  "run parse [] s = Inr s"
| "run parse (e # es) s =
     (case step parse e s of Inl thrown \<Rightarrow> Inl thrown | Inr s' \<Rightarrow> run parse es s')"

text \<open>
  The tokens of the calls of a trace and what \<^verbatim>\<open>sendToQueue\<close> did in each, in call order: call
  \<open>n\<close> has token \<open>call_tokens evs ! n\<close>, and its request was sent when
  \<open>call_sends evs ! n = Sent\<close>.
\<close>

fun call_tokens :: "'p event list \<Rightarrow> token list" where
  "call_tokens [] = []"
| "call_tokens (Call q replyQueue tok cmd pl sendToQueue # es) = tok # call_tokens es"
| "call_tokens (e # es) = call_tokens es"

fun call_sends :: "'p event list \<Rightarrow> send_result list" where
  "call_sends [] = []"
| "call_sends (Call q replyQueue tok cmd pl sendToQueue # es) = sendToQueue # call_sends es"
| "call_sends (e # es) = call_sends es"

text \<open>What has been called on promise \<open>n\<close> so far.\<close>

definition settlements :: "nat \<Rightarrow> ('p, 'a) gateway \<Rightarrow> 'a settlement list" where
  "settlements n s = map snd (filter (\<lambda>e. fst e = n) (settled s))"

text \<open>
  What the \<^verbatim>\<open>Promise\<close> constructor calls on the promise when the executor has run: nothing when
  \<^verbatim>\<open>sendToQueue\<close> returned, \<^verbatim>\<open>reject\<close> with the thrown error when it threw.
\<close>

fun executor_settlements :: "send_result \<Rightarrow> 'a settlement list" where
  "executor_settlements Sent = []"
| "executor_settlements (Throws e) = [Rejected (Thrown e)]"

subsection \<open>Invariants of the correlator's reachable states\<close>

text \<open>
  \<open>wf_timers\<close>: the promise counter is the number of calls made, and an armed timer belongs to
  a call that was made and whose request was sent, holds that call's token and the delay 5000.
  \<open>wf_pending\<close>: every entry of the pending map is the \<^verbatim>\<open>resolve\<close> of the promise of a call with
  the entry's token, and either that call's timer is still armed or its \<^verbatim>\<open>sendToQueue\<close> threw.
  \<open>wf_settled\<close>: every call of a promise's function is accounted for by an event of the trace.
  \<open>counted\<close>: after what the \<^verbatim>\<open>Promise\<close> constructor did, a promise whose entry is in the
  pending map has had nothing called on it, any other promise exactly one function, once.
\<close>

definition wf_timers :: "'p event list \<Rightarrow> ('p, 'a) gateway \<Rightarrow> bool" where
  "wf_timers evs s \<longleftrightarrow>
     promises s = length (call_tokens evs) \<and>
     (\<forall>n tok d. map_of (timers s) n = Some (tok, d)
        \<longrightarrow> n < promises s \<and> call_tokens evs ! n = tok \<and> d = 5000 \<and> call_sends evs ! n = Sent)"

definition wf_pending :: "'p event list \<Rightarrow> ('p, 'a) gateway \<Rightarrow> bool" where
  "wf_pending evs s \<longleftrightarrow>
     (\<forall>tok f. map_of (pendingMap s) tok = Some f
        \<longrightarrow> (\<exists>n. f = Resolve n \<and> n < promises s \<and> call_tokens evs ! n = tok \<and>
                 (map_of (timers s) n = Some (tok, 5000) \<or> (\<exists>e. call_sends evs ! n = Throws e))))"

definition wf_settled :: "(string \<Rightarrow> 'a option) \<Rightarrow> 'p event list \<Rightarrow> ('p, 'a) gateway \<Rightarrow> bool" where
  "wf_settled parse evs s \<longleftrightarrow>
     (\<forall>n x. (n, x) \<in> set (settled s) \<longrightarrow> n < promises s) \<and>
     (\<forall>n r. (n, Rejected r) \<in> set (settled s)
        \<longrightarrow> (r = Error ''RPC timeout'' \<and> Fire n \<in> set evs \<and> call_sends evs ! n = Sent)
            \<or> (\<exists>e. r = Thrown e \<and> call_sends evs ! n = Throws e)) \<and>
     (\<forall>n v. (n, Fulfilled v) \<in> set (settled s)
        \<longrightarrow> (\<exists>m v'. Deliver m \<in> set evs \<and> correlationId m = call_tokens evs ! n
                  \<and> parse (content m) = Some v' \<and> v = Envelope v'))"

definition counted :: "'p event list \<Rightarrow> ('p, 'a) gateway \<Rightarrow> bool" where
  "counted evs s \<longleftrightarrow>
     (\<forall>n<promises s. \<exists>rest.
        settlements n s = executor_settlements (call_sends evs ! n) @ rest \<and>
        (if map_of (pendingMap s) (call_tokens evs ! n) = Some (Resolve n)
         then rest = []
         else rest = [Rejected (Error ''RPC timeout'')] \<or> (\<exists>v. rest = [Fulfilled (Envelope v)])))"

definition reachable_inv ::
  "(string \<Rightarrow> 'a option) \<Rightarrow> 'p event list \<Rightarrow> ('p, 'a) gateway \<Rightarrow> bool" where
  "reachable_inv parse evs s \<longleftrightarrow>
     wf_timers evs s \<and> wf_pending evs s \<and> wf_settled parse evs s \<and>
     distinct (map fst (pendingMap s)) \<and> distinct (map fst (timers s))"

section \<open>The request router (api/index.js, authenticateToken and the route handlers)\<close>

text \<open>
  A handler awaits one RPC call and then answers. What the call gave is the handler's input:
  \<open>Inr response\<close> when the promise was resolved with a reply envelope, \<open>Inl message\<close> when
  it was rejected with \<^verbatim>\<open>new Error(message)\<close>, which the handler's \<^verbatim>\<open>catch\<close> receives. A reply
  envelope is what the workers send: \<^verbatim>\<open>{status, data}\<close> or \<^verbatim>\<open>{status, message}\<close>; a field that is
  absent reads as \<^verbatim>\<open>undefined\<close>, here \<open>None\<close>.

  What a handler does is the list of its effects, in order: \<open>Publish\<close> is a call of
  \<^verbatim>\<open>broadcast\<close> (\<^verbatim>\<open>publisher.publish('item_updates', ...)\<close>), \<open>Respond\<close> the HTTP response.
  \<^verbatim>\<open>await broadcast(...)\<close> stands inside the handler's \<^verbatim>\<open>try\<close>: \<open>published\<close> tells whether it
  returned; when it threw, the \<^verbatim>\<open>catch\<close> answers 504.
\<close>

record 'd reply =
  status :: string
  data :: "'d option"
  message :: "string option"

text \<open>\<^verbatim>\<open>res.json(x)\<close>, \<^verbatim>\<open>res.send(x)\<close>, \<^verbatim>\<open>res.sendStatus(code)\<close>.\<close>

datatype 'd body = Json "'d option" | Text "string option" | Status_text

text \<open>\<^verbatim>\<open>{type, item}\<close> and \<^verbatim>\<open>{type, id}\<close>.\<close>

datatype ('d, 'i) fanout = Item_event string "'d option" | Id_event string 'i

datatype ('d, 'i) effect = Publish "('d, 'i) fanout" | Respond nat "'d body"

text \<open>
  \<^verbatim>\<open>authHeader?.split(' ')[1]\<close>: the second piece of the header, cut at every space; a missing
  header, a missing piece and the empty string all count as no token (\<^verbatim>\<open>!token\<close>).
\<close>

fun split_on :: "char \<Rightarrow> string \<Rightarrow> string list" where
  "split_on c [] = [[]]"
| "split_on c (x # xs) =
     (if x = c then [] # split_on c xs
      else (case split_on c xs of w # ws \<Rightarrow> (x # w) # ws | [] \<Rightarrow> [[x]]))"

definition bearer_token :: "string option \<Rightarrow> string option" where
  "bearer_token authHeader =
     (case authHeader of
        None \<Rightarrow> None
      | Some h \<Rightarrow>
          (case split_on CHR '' '' h of
             scheme # token # rest \<Rightarrow> if token = [] then None else Some token
           | _ \<Rightarrow> None))"

text \<open>
  The middleware: without a token 401 and no RPC call; otherwise the answer to \<^verbatim>\<open>verify_token\<close>
  decides. On success \<^verbatim>\<open>req.user = response.data.user\<close>, which throws inside the \<^verbatim>\<open>try\<close> when
  \<^verbatim>\<open>data\<close> is undefined (503) and leaves \<^verbatim>\<open>req.user\<close> undefined when \<^verbatim>\<open>data\<close> has no \<^verbatim>\<open>user\<close>; then
  \<^verbatim>\<open>next()\<close>.
\<close>

record 'u token_data =
  user :: "'u option"

datatype 'u auth = Next "'u option" | Halt nat

definition authenticateToken ::
  "string option \<Rightarrow> (string \<Rightarrow> string + 'u token_data reply) \<Rightarrow> 'u auth" where
  "authenticateToken authHeader verify_token =
     (case bearer_token authHeader of
        None \<Rightarrow> Halt 401
      | Some token \<Rightarrow>
          (case verify_token token of
             Inr response \<Rightarrow>
               (if status response = ''success''
                then (case data response of None \<Rightarrow> Halt 503 | Some d \<Rightarrow> Next (user d))
                else Halt 403)
           | Inl err \<Rightarrow> Halt 503))"

text \<open>The handlers, each from the point where its RPC call has settled.\<close>

definition signup :: "string + 'd reply \<Rightarrow> ('d, 'i) effect list" where
  "signup rpc =
     (case rpc of
        Inr response \<Rightarrow> [Respond 201 (Json (data response))]
      | Inl err \<Rightarrow> [Respond 504 (Text (Some err))])"

definition login :: "string + 'd reply \<Rightarrow> ('d, 'i) effect list" where
  "login rpc =
     (case rpc of
        Inr response \<Rightarrow>
          (if status response = ''success''
           then [Respond 200 (Json (data response))]
           else [Respond 401 (Text (message response))])
      | Inl err \<Rightarrow> [Respond 504 (Text (Some err))])"

definition get_items :: "string + 'd reply \<Rightarrow> ('d, 'i) effect list" where
  "get_items rpc =
     (case rpc of
        Inr response \<Rightarrow> [Respond 200 (Json (data response))]
      | Inl err \<Rightarrow> [Respond 504 (Text (Some ''Item service timeout''))])"

definition post_items :: "string + 'd reply \<Rightarrow> bool \<Rightarrow> ('d, 'i) effect list" where
  "post_items rpc published =
     (case rpc of
        Inr response \<Rightarrow>
          Publish (Item_event ''item_added'' (data response)) #
            (if published then [Respond 201 (Json (data response))]
             else [Respond 504 (Text (Some ''Item service timeout''))])
      | Inl err \<Rightarrow> [Respond 504 (Text (Some ''Item service timeout''))])"

definition put_item :: "string + 'd reply \<Rightarrow> bool \<Rightarrow> ('d, 'i) effect list" where
  "put_item rpc published =
     (case rpc of
        Inr response \<Rightarrow>
          (if status response = ''success''
           then Publish (Item_event ''item_updated'' (data response)) #
                  (if published then [Respond 200 (Json (data response))]
                   else [Respond 504 (Text (Some ''Item service timeout''))])
           else [Respond 404 (Text (message response))])
      | Inl err \<Rightarrow> [Respond 504 (Text (Some ''Item service timeout''))])"

definition delete_item :: "'i \<Rightarrow> string + 'd reply \<Rightarrow> bool \<Rightarrow> ('d, 'i) effect list" where
  "delete_item item_id rpc published =
     (case rpc of
        Inr response \<Rightarrow>
          (if status response = ''success''
           then Publish (Id_event ''item_deleted'' item_id) #
                  (if published then [Respond 204 Status_text]
                   else [Respond 504 (Text (Some ''Item service timeout''))])
           else [Respond 404 (Text (message response))])
      | Inl err \<Rightarrow> [Respond 504 (Text (Some ''Item service timeout''))])"

text \<open>
  A route behind \<^verbatim>\<open>authenticateToken\<close>: the handler runs only after \<^verbatim>\<open>next()\<close>. The handlers of
  \<^verbatim>\<open>POST /items\<close>, \<^verbatim>\<open>PUT /items/:id\<close> and \<^verbatim>\<open>DELETE /items/:id\<close> evaluate \<^verbatim>\<open>req.user.username\<close>
  inside their \<^verbatim>\<open>try\<close> while they build the payload, before the RPC call (\<open>reads_user\<close>): with
  \<^verbatim>\<open>req.user\<close> undefined that throws, and the \<^verbatim>\<open>catch\<close> answers 504 with no RPC call and nothing
  published. The handler of \<^verbatim>\<open>GET /items\<close> does not read \<^verbatim>\<open>req.user\<close>. \<open>handler\<close> is what the
  handler does once its RPC call has settled.
\<close>

definition guarded ::
  "bool \<Rightarrow> string option \<Rightarrow> (string \<Rightarrow> string + 'u token_data reply)
     \<Rightarrow> ('d, 'i) effect list \<Rightarrow> ('d, 'i) effect list" where
  "guarded reads_user authHeader verify_token handler =
     (case authenticateToken authHeader verify_token of
        Halt code \<Rightarrow> [Respond code Status_text]
      | Next req_user \<Rightarrow>
          (case req_user of
             None \<Rightarrow>
               if reads_user then [Respond 504 (Text (Some ''Item service timeout''))]
               else handler
           | Some u \<Rightarrow> handler))"

section \<open>The codec of the envelopes\<close>

text \<open>
  The bodies of requests and replies are made by \<^verbatim>\<open>JSON.stringify\<close> and read by \<^verbatim>\<open>JSON.parse\<close>
  (api/index.js 96, 108, 139; item-service/index.js 53, 174; user-service/index.js 45, 109).
  Both belong to the JavaScript runtime, so the codec is modelled here, for the payload types
  that are named for the round trip. Strings are strings of bytes. Numbers are finite
  decimals in plain notation, which is how the runtime writes the numbers of ordinary size.
  Arrays are left out.
\<close>

text \<open>Modelled from the spec: the payload values the codec must carry (section 8: string, number, boolean, null and nested object). A number is a finite decimal: sign, integer part, digits of the fraction. An object is its list of fields, in order.\<close>

datatype json =
  JNull
| JBool bool
| JNum bool nat "nat list"
| JStr string
| JObj "(string \<times> json) list"

text \<open>Modelled from the spec: the character of a decimal digit.\<close>

definition digit_char :: "nat \<Rightarrow> char" where
  "digit_char d = char_of (48 + d)"



text \<open>Modelled from the spec: a natural number in decimal, without leading zeros.\<close>

fun show_nat :: "nat \<Rightarrow> string" where
  "show_nat n = (if n < 10 then [digit_char n] else show_nat (n div 10) @ [digit_char (n mod 10)])"


text \<open>Modelled from the spec: a number as text: sign, integer part, and the fraction after a point when there is one. Zero is written without a sign.\<close>

definition show_num :: "bool \<Rightarrow> nat \<Rightarrow> nat list \<Rightarrow> string" where
  "show_num neg ip frac =
     (if neg \<and> \<not> (ip = 0 \<and> frac = []) then ''-'' else '''')
     @ show_nat ip
     @ (if frac = [] then [] else CHR ''.'' # map digit_char frac)"

text \<open>Modelled from the spec: a hexadecimal digit, in lower case.\<close>

definition hex_char :: "nat \<Rightarrow> char" where
  "hex_char d = (if d < 10 then char_of (48 + d) else char_of (87 + d))"


text \<open>Modelled from the spec: a character inside a string: the quote, the backslash and the control characters are escaped, the others stand for themselves.\<close>

definition escape_char :: "char \<Rightarrow> string" where
  "escape_char c =
     (if c = CHR 0x22 then [CHR 0x5C, CHR 0x22]
      else if c = CHR 0x5C then [CHR 0x5C, CHR 0x5C]
      else if c = CHR 0x08 then [CHR 0x5C, CHR ''b'']
      else if c = CHR 0x0C then [CHR 0x5C, CHR ''f'']
      else if c = CHR 0x0A then [CHR 0x5C, CHR ''n'']
      else if c = CHR 0x0D then [CHR 0x5C, CHR ''r'']
      else if c = CHR 0x09 then [CHR 0x5C, CHR ''t'']
      else if (of_char c :: nat) < 32
        then [CHR 0x5C, CHR ''u'', CHR ''0'', CHR ''0'',
              hex_char (of_char c div 16), hex_char (of_char c mod 16)]
      else [c])"

text \<open>Modelled from the spec: a string as text, between quotes.\<close>

definition quote :: "string \<Rightarrow> string" where
  "quote s = CHR 0x22 # concat (map escape_char s) @ [CHR 0x22]"

text \<open>Modelled from the spec: the encoder of the structured text (section 6), written after \<^verbatim>\<open>JSON.stringify\<close>, which the source calls and which is not code of the repository. It writes no white space.\<close>

fun stringify :: "json \<Rightarrow> string"
  and stringify_members :: "(string \<times> json) list \<Rightarrow> string" where
  "stringify JNull = ''null''"
| "stringify (JBool b) = (if b then ''true'' else ''false'')"
| "stringify (JNum neg ip frac) = show_num neg ip frac"
| "stringify (JStr s) = quote s"
| "stringify (JObj kvs) = CHR ''{'' # stringify_members kvs @ ''}''"
| "stringify_members [] = []"
| "stringify_members [(k, v)] = quote k @ CHR '':'' # stringify v"
| "stringify_members ((k, v) # kv # kvs) =
     quote k @ CHR '':'' # stringify v @ CHR '','' # stringify_members (kv # kvs)"

text \<open>Modelled from the spec: \<^verbatim>\<open>JSON.stringify\<close> on these values.\<close>

definition JSON_stringify :: "json \<Rightarrow> string" where
  "JSON_stringify v = stringify v"
















subsection \<open>The envelopes (api/index.js 139, item-service/index.js 53 and 69 to 176)\<close>

text \<open>
  The body of a request, \<^verbatim>\<open>Buffer.from(JSON.stringify({ command, payload }))\<close> in \<^verbatim>\<open>sendRpc\<close>.
\<close>

definition request_body :: "string \<Rightarrow> json \<Rightarrow> string" where
  "request_body cmd pl = JSON_stringify (JObj [(''command'', JStr cmd), (''payload'', pl)])"



definition error_reply :: "string \<Rightarrow> json" where
  "error_reply msg = JObj [(''status'', JStr ''error''), (''message'', JStr msg)]"


section \<open>Broker connection at start-up (api/index.js, setupRabbitMQ and the start of the server)\<close>

text \<open>
  \<^verbatim>\<open>setupRabbitMQ\<close> tries to connect inside a \<^verbatim>\<open>while (retries < maxRetries)\<close> loop. The
  \<^verbatim>\<open>try\<close> block (connect, createChannel, two assertQueue, two consume) either completes and
  the function returns, or throws; the \<^verbatim>\<open>catch\<close> block increments \<^verbatim>\<open>retries\<close> and sleeps
  5000 ms. After the loop the process exits with status 1, so \<^verbatim>\<open>server.listen\<close> (the statement
  after \<^verbatim>\<open>await setupRabbitMQ()\<close>) is never reached.

  The broker is the environment: \<open>connect n\<close> tells whether the \<^verbatim>\<open>try\<close> block completes when
  it is entered with \<^verbatim>\<open>retries\<close> equal to \<open>n\<close>, that is, at the attempt number \<open>n\<close> counted from
  0. The loop records what it does in a trace: \<open>Try\<close> for an execution of the \<^verbatim>\<open>try\<close> block,
  \<open>Sleep d\<close> for the \<^verbatim>\<open>setTimeout\<close> of \<open>d\<close> ms awaited in the \<^verbatim>\<open>catch\<close> block.
\<close>

datatype broker = Connected | Fatal

datatype setup_action = Try | Sleep nat

definition maxRetries :: nat where
  "maxRetries = 5"

function setupRabbitMQ_loop ::
  "(nat \<Rightarrow> bool) \<Rightarrow> nat \<Rightarrow> setup_action list \<Rightarrow> broker \<times> setup_action list" where
  "setupRabbitMQ_loop connect retries acts =
     (if retries < maxRetries then
        (if connect retries
         then (Connected, acts @ [Try])
         else setupRabbitMQ_loop connect (Suc retries) (acts @ [Try, Sleep 5000]))
      else (Fatal, acts))"
  by pat_completeness auto
termination
  by (relation "measure (\<lambda>(connect, retries, acts). maxRetries - retries)") auto

definition setupRabbitMQ :: "(nat \<Rightarrow> bool) \<Rightarrow> broker \<times> setup_action list" where
  "setupRabbitMQ connect = setupRabbitMQ_loop connect 0 []"

datatype process = Listening nat | Exited nat

definition port :: nat where
  "port = 3000"

definition start_server :: "(nat \<Rightarrow> bool) \<Rightarrow> process" where
  "start_server connect =
     (case fst (setupRabbitMQ connect) of
        Connected \<Rightarrow> Listening port
      | Fatal \<Rightarrow> Exited 1)"

definition rounds :: "nat \<Rightarrow> setup_action list" where
  "rounds k = concat (replicate k [Try, Sleep 5000])"

section \<open>The correlator's invariants hold in every reachable state\<close>

lemma call_tokens_append: "call_tokens (xs @ ys) = call_tokens xs @ call_tokens ys"
  by (induction xs rule: call_tokens.induct) simp_all

lemma call_sends_append: "call_sends (xs @ ys) = call_sends xs @ call_sends ys"
  by (induction xs rule: call_sends.induct) simp_all

lemma length_call_sends: "length (call_sends evs) = length (call_tokens evs)"
  by (induction evs rule: call_tokens.induct) simp_all

lemma calls_stable:
  assumes "n < length (call_tokens evs)"
  shows "call_tokens (evs @ es) ! n = call_tokens evs ! n"
    and "call_sends (evs @ es) ! n = call_sends evs ! n"
  using assms by (simp_all add: call_tokens_append call_sends_append nth_append length_call_sends)

lemma calls_snoc_other:
  assumes "\<And>q rq tok cmd pl res. e \<noteq> Call q rq tok cmd pl res"
  shows "call_tokens (evs @ [e]) = call_tokens evs" "call_sends (evs @ [e]) = call_sends evs"
  using assms by (cases e; simp add: call_tokens_append call_sends_append)+

lemma calls_snoc_Call:
  "call_tokens (evs @ [Call q rq tok cmd pl res]) = call_tokens evs @ [tok]"
  "call_sends (evs @ [Call q rq tok cmd pl res]) = call_sends evs @ [res]"
  by (simp_all add: call_tokens_append call_sends_append)

lemma run_append:
  "run parse (xs @ ys) s
     = (case run parse xs s of Inl thrown \<Rightarrow> Inl thrown | Inr s' \<Rightarrow> run parse ys s')"
  by (induction xs arbitrary: s) (simp_all split: sum.splits)

lemma run_snoc:
  "run parse xs s = Inr s1 \<Longrightarrow> step parse e s1 = Inr s2 \<Longrightarrow> run parse (xs @ [e]) s = Inr s2"
  by (simp add: run_append)

lemma run_Cons_Inr:
  assumes "run parse (e # es) s = Inr s'"
  obtains s1 where "step parse e s = Inr s1" "run parse es s1 = Inr s'"
  using assms by (auto split: sum.splits)

lemma invoke_fields [simp]:
  "pendingMap (invoke f v s) = pendingMap s"
  "timers (invoke f v s) = timers s"
  "promises (invoke f v s) = promises s"
  "sent (invoke f v s) = sent s"
  by (cases f; simp)+

lemma on_timeout_fields [simp]:
  "timers (on_timeout n tok s) = timers s"
  "promises (on_timeout n tok s) = promises s"
  "pendingMap (on_timeout n tok s) = AList.delete tok (pendingMap s)"
  "settled (on_timeout n tok s) =
     (if map_of (pendingMap s) tok \<noteq> None
      then settled s @ [(n, Rejected (Error ''RPC timeout''))] else settled s)"
  by (auto simp: on_timeout_def map_of_eq_None_iff)

lemma consumer_fields:
  assumes "consumer parse m s = Inr s'"
  shows "timers s' = timers s" "promises s' = promises s"
    "pendingMap s' = AList.delete (correlationId m) (pendingMap s)"
  using assms by (auto simp: consumer_def map_of_eq_None_iff split: option.splits)

lemma consumer_cases:
  assumes "consumer parse m s = Inr s'"
  obtains (dropped) "map_of (pendingMap s) (correlationId m) = None" "s' = s"
  | (called) f v where "map_of (pendingMap s) (correlationId m) = Some f"
      "parse (content m) = Some v"
      "s' = (invoke f (Envelope v) s)\<lparr>pendingMap := AList.delete (correlationId m) (pendingMap s)\<rparr>"
  using assms by (auto simp: consumer_def split: option.splits)

lemma sendRpc_fields [simp]:
  "pendingMap (sendRpc q rq tok cmd pl res s)
     = AList.update tok (Resolve (promises s)) (pendingMap s)"
  "promises (sendRpc q rq tok cmd pl res s) = Suc (promises s)"
  "timers (sendRpc q rq tok cmd pl res s)
     = (case res of Sent \<Rightarrow> AList.update (promises s) (tok, 5000) (timers s)
        | Throws e \<Rightarrow> timers s)"
  "settled (sendRpc q rq tok cmd pl res s)
     = settled s @ map (Pair (promises s)) (executor_settlements res)"
  by (cases res; simp add: sendRpc_def)+

lemma step_Fire_cases:
  assumes "step parse (Fire n) s = Inr s'"
  obtains (unarmed) "map_of (timers s) n = None" "s' = s"
  | (fired) tok d where "map_of (timers s) n = Some (tok, d)"
      "s' = on_timeout n tok (s\<lparr>timers := AList.delete n (timers s)\<rparr>)"
  using assms by (cases "map_of (timers s) n") auto

lemma wf_timersD:
  "wf_timers evs s \<Longrightarrow> map_of (timers s) n = Some (tok, d)
   \<Longrightarrow> n < promises s \<and> call_tokens evs ! n = tok \<and> d = 5000 \<and> call_sends evs ! n = Sent"
  unfolding wf_timers_def by blast

lemma wf_timers_len: "wf_timers evs s \<Longrightarrow> promises s = length (call_tokens evs)"
  unfolding wf_timers_def by blast

lemma wf_pendingD:
  "wf_pending evs s \<Longrightarrow> map_of (pendingMap s) tok = Some f
   \<Longrightarrow> \<exists>n. f = Resolve n \<and> n < promises s \<and> call_tokens evs ! n = tok \<and>
          (map_of (timers s) n = Some (tok, 5000) \<or> (\<exists>e. call_sends evs ! n = Throws e))"
  unfolding wf_pending_def by blast

lemma wf_timersI:
  "promises s = length (call_tokens evs)
   \<Longrightarrow> (\<And>n tok d. map_of (timers s) n = Some (tok, d)
          \<Longrightarrow> n < promises s \<and> call_tokens evs ! n = tok \<and> d = 5000
              \<and> call_sends evs ! n = Sent)
   \<Longrightarrow> wf_timers evs s"
  unfolding wf_timers_def by blast

lemma wf_pendingI:
  "(\<And>tok f. map_of (pendingMap s) tok = Some f
          \<Longrightarrow> \<exists>n. f = Resolve n \<and> n < promises s \<and> call_tokens evs ! n = tok \<and>
          (map_of (timers s) n = Some (tok, 5000) \<or> (\<exists>e. call_sends evs ! n = Throws e)))
   \<Longrightarrow> wf_pending evs s"
  unfolding wf_pending_def by blast

lemma wf_timers_step:
  assumes wf: "wf_timers evs s" and st: "step parse e s = Inr s'"
  shows "wf_timers (evs @ [e]) s'"
proof -
  note len = wf_timers_len [OF wf]
  have old: "n < promises s' \<and> call_tokens (evs @ [e]) ! n = tok \<and> d = 5000
              \<and> call_sends (evs @ [e]) ! n = Sent"
    if "map_of (timers s) n = Some (tok, d)" "promises s \<le> promises s'" for n tok d
    using wf_timersD [OF wf that(1)] that(2) len by (simp add: calls_stable)
  show ?thesis
  proof (cases e)
    case (Call q rq tok cmd pl res)
    with st have s': "s' = sendRpc q rq tok cmd pl res s" by simp
    show ?thesis
    proof (rule wf_timersI)
      show "promises s' = length (call_tokens (evs @ [e]))"
        using len by (simp add: s' Call calls_snoc_Call)
    next
      fix n tok' d assume a: "map_of (timers s') n = Some (tok', d)"
      show "n < promises s' \<and> call_tokens (evs @ [e]) ! n = tok' \<and> d = 5000
              \<and> call_sends (evs @ [e]) ! n = Sent"
      proof (cases "res = Sent \<and> n = promises s")
        case True
        with a have "tok' = tok" "d = 5000" by (simp_all add: s' update_conv')
        with True len show ?thesis
          by (simp add: s' Call calls_snoc_Call nth_append length_call_sends)
      next
        case False
        with a have "map_of (timers s) n = Some (tok', d)"
          by (cases res) (auto simp: s' update_conv' split: if_splits)
        then show ?thesis by (rule old) (simp add: s')
      qed
    qed
  next
    case (Deliver m)
    with st have "consumer parse m s = Inr s'" by simp
    note f = consumer_fields [OF this]
    show ?thesis
    proof (rule wf_timersI)
      show "promises s' = length (call_tokens (evs @ [e]))"
        using len by (simp add: f Deliver call_tokens_append)
    next
      fix n tok' d assume "map_of (timers s') n = Some (tok', d)"
      then have "map_of (timers s) n = Some (tok', d)" by (simp add: f)
      then show "n < promises s' \<and> call_tokens (evs @ [e]) ! n = tok' \<and> d = 5000
              \<and> call_sends (evs @ [e]) ! n = Sent"
        by (rule old) (simp add: f)
    qed
  next
    case (Fire n0)
    with st have "step parse (Fire n0) s = Inr s'" by simp
    then have ts: "\<And>k x. map_of (timers s') k = Some x \<Longrightarrow> map_of (timers s) k = Some x"
      and ps: "promises s' = promises s"
      by (cases rule: step_Fire_cases; auto simp: delete_conv' split: if_splits)+
    show ?thesis
    proof (rule wf_timersI)
      show "promises s' = length (call_tokens (evs @ [e]))"
        using len by (simp add: ps Fire call_tokens_append)
    next
      fix n tok' d assume "map_of (timers s') n = Some (tok', d)"
      then have "map_of (timers s) n = Some (tok', d)" by (rule ts)
      then show "n < promises s' \<and> call_tokens (evs @ [e]) ! n = tok' \<and> d = 5000
              \<and> call_sends (evs @ [e]) ! n = Sent"
        by (rule old) (simp add: ps)
    qed
  qed
qed

lemma wf_pending_step:
  assumes wt: "wf_timers evs s" and wp: "wf_pending evs s" and st: "step parse e s = Inr s'"
  shows "wf_pending (evs @ [e]) s'"
proof -
  note len = wf_timers_len [OF wt]
  have old: "\<exists>n. f = Resolve n \<and> n < promises s' \<and> call_tokens (evs @ [e]) ! n = tok \<and>
          (map_of (timers s') n = Some (tok, 5000) \<or> (\<exists>x. call_sends (evs @ [e]) ! n = Throws x))"
    if e: "map_of (pendingMap s) tok = Some f" and p: "promises s \<le> promises s'"
      and keep: "\<And>n. n < promises s \<Longrightarrow> map_of (pendingMap s) tok = Some (Resolve n)
         \<Longrightarrow> map_of (timers s) n = Some (tok, 5000) \<Longrightarrow> map_of (timers s') n = Some (tok, 5000)"
    for tok f
  proof -
    from wf_pendingD [OF wp e] obtain n where n: "f = Resolve n" "n < promises s"
      "call_tokens evs ! n = tok"
      "map_of (timers s) n = Some (tok, 5000) \<or> (\<exists>x. call_sends evs ! n = Throws x)" by blast
    from n(4) keep [OF n(2)] e n(1)
    have "map_of (timers s') n = Some (tok, 5000) \<or> (\<exists>x. call_sends evs ! n = Throws x)" by blast
    with n p len show ?thesis by (auto simp: calls_stable)
  qed
  show ?thesis
  proof (cases e)
    case (Call q rq tok cmd pl res)
    with st have s': "s' = sendRpc q rq tok cmd pl res s" by simp
    show ?thesis
    proof (rule wf_pendingI)
      fix tok' f assume a: "map_of (pendingMap s') tok' = Some f"
      show "\<exists>n. f = Resolve n \<and> n < promises s' \<and> call_tokens (evs @ [e]) ! n = tok' \<and>
          (map_of (timers s') n = Some (tok', 5000) \<or> (\<exists>x. call_sends (evs @ [e]) ! n = Throws x))"
      proof (cases "tok' = tok")
        case True
        with a have f: "f = Resolve (promises s)" by (simp add: s' update_conv')
        have "call_tokens (evs @ [e]) ! promises s = tok"
          "call_sends (evs @ [e]) ! promises s = res"
          using len by (simp_all add: Call calls_snoc_Call nth_append length_call_sends)
        moreover have "map_of (timers s') (promises s) = Some (tok, 5000) \<or> (\<exists>x. res = Throws x)"
          by (cases res) (simp_all add: s' update_conv')
        ultimately show ?thesis using f True by (auto simp: s')
      next
        case False
        with a have "map_of (pendingMap s) tok' = Some f" by (simp add: s' update_conv')
        then show ?thesis
          by (rule old) (cases res; simp add: s' update_conv')+
      qed
    qed
  next
    case (Deliver m)
    with st have "consumer parse m s = Inr s'" by simp
    note f = consumer_fields [OF this]
    show ?thesis
    proof (rule wf_pendingI)
      fix tok' g assume "map_of (pendingMap s') tok' = Some g"
      then have "map_of (pendingMap s) tok' = Some g"
        by (simp add: f delete_conv' split: if_splits)
      then show "\<exists>n. g = Resolve n \<and> n < promises s' \<and> call_tokens (evs @ [e]) ! n = tok' \<and>
          (map_of (timers s') n = Some (tok', 5000) \<or> (\<exists>x. call_sends (evs @ [e]) ! n = Throws x))"
        by (rule old) (simp_all add: f)
    qed
  next
    case (Fire n0)
    with st have "step parse (Fire n0) s = Inr s'" by simp
    then show ?thesis
    proof (cases rule: step_Fire_cases)
      case unarmed
      show ?thesis
      proof (rule wf_pendingI)
        fix tok' g assume "map_of (pendingMap s') tok' = Some g"
        then have "map_of (pendingMap s) tok' = Some g" by (simp add: unarmed)
        then show "\<exists>n. g = Resolve n \<and> n < promises s' \<and> call_tokens (evs @ [e]) ! n = tok' \<and>
          (map_of (timers s') n = Some (tok', 5000) \<or> (\<exists>x. call_sends (evs @ [e]) ! n = Throws x))"
          by (rule old) (simp_all add: unarmed)
      qed
    next
      case (fired tok d)
      show ?thesis
      proof (rule wf_pendingI)
        fix tok' g assume "map_of (pendingMap s') tok' = Some g"
        then have ne: "tok' \<noteq> tok" and o: "map_of (pendingMap s) tok' = Some g"
          by (auto simp: fired delete_conv' split: if_splits)
        from o show "\<exists>n. g = Resolve n \<and> n < promises s' \<and> call_tokens (evs @ [e]) ! n = tok' \<and>
          (map_of (timers s') n = Some (tok', 5000) \<or> (\<exists>x. call_sends (evs @ [e]) ! n = Throws x))"
        proof (rule old)
          show "promises s \<le> promises s'" by (simp add: fired)
        next
          fix n assume "map_of (timers s) n = Some (tok', 5000)"
          with fired(1) ne have "n \<noteq> n0" by auto
          with \<open>map_of (timers s) n = Some (tok', 5000)\<close>
          show "map_of (timers s') n = Some (tok', 5000)" by (simp add: fired delete_conv')
        qed
      qed
    qed
  qed
qed

lemma wf_settled_grow:
  assumes ws: "wf_settled parse evs s" and len: "promises s = length (call_tokens evs)"
    and p: "promises s \<le> promises s'"
    and new: "\<And>n x. (n, x) \<in> set (settled s') \<Longrightarrow> (n, x) \<notin> set (settled s) \<Longrightarrow>
         n < promises s' \<and>
         (case x of
            Rejected r \<Rightarrow>
              (r = Error ''RPC timeout'' \<and> e = Fire n \<and> call_sends evs ! n = Sent \<and> n < promises s)
              \<or> (\<exists>x. r = Thrown x \<and> call_sends (evs @ [e]) ! n = Throws x)
          | Fulfilled v \<Rightarrow> n < promises s \<and>
              (\<exists>m v'. e = Deliver m \<and> correlationId m = call_tokens evs ! n
                  \<and> parse (content m) = Some v' \<and> v = Envelope v'))"
  shows "wf_settled parse (evs @ [e]) s'"
proof -
  have 1: "n < promises s'" if "(n, x) \<in> set (settled s')" for n x
    using that ws new [of n x] p unfolding wf_settled_def
    by (cases "(n, x) \<in> set (settled s)") auto
  have 2: "(r = Error ''RPC timeout'' \<and> Fire n \<in> set (evs @ [e])
              \<and> call_sends (evs @ [e]) ! n = Sent)
            \<or> (\<exists>x. r = Thrown x \<and> call_sends (evs @ [e]) ! n = Throws x)"
    if a: "(n, Rejected r) \<in> set (settled s')" for n r
  proof (cases "(n, Rejected r) \<in> set (settled s)")
    case True
    with ws have "n < promises s" and
      "(r = Error ''RPC timeout'' \<and> Fire n \<in> set evs \<and> call_sends evs ! n = Sent)
        \<or> (\<exists>x. r = Thrown x \<and> call_sends evs ! n = Throws x)"
      unfolding wf_settled_def by blast+
    with len show ?thesis by (auto simp: calls_stable)
  next
    case False
    from new [OF a False] len show ?thesis by (auto simp: calls_stable)
  qed
  have 3: "\<exists>m v'. Deliver m \<in> set (evs @ [e]) \<and> correlationId m = call_tokens (evs @ [e]) ! n
                  \<and> parse (content m) = Some v' \<and> v = Envelope v'"
    if a: "(n, Fulfilled v) \<in> set (settled s')" for n v
  proof (cases "(n, Fulfilled v) \<in> set (settled s)")
    case True
    with ws have "n < promises s" and
      "\<exists>m v'. Deliver m \<in> set evs \<and> correlationId m = call_tokens evs ! n
                  \<and> parse (content m) = Some v' \<and> v = Envelope v'"
      unfolding wf_settled_def by blast+
    with len show ?thesis by (auto simp: calls_stable)
  next
    case False
    from new [OF a False] len show ?thesis by (auto simp: calls_stable)
  qed
  from 1 2 3 show ?thesis
    unfolding wf_settled_def by blast
qed

lemma wf_settled_step:
  assumes wt: "wf_timers evs s" and wp: "wf_pending evs s" and ws: "wf_settled parse evs s"
    and st: "step parse e s = Inr s'"
  shows "wf_settled parse (evs @ [e]) s'"
proof -
  note len = wf_timers_len [OF wt]
  show ?thesis
  proof (cases e)
    case (Call q rq tok cmd pl res)
    with st have s': "s' = sendRpc q rq tok cmd pl res s" by simp
    have "call_sends (evs @ [e]) ! promises s = res"
      using len by (simp add: Call calls_snoc_Call nth_append length_call_sends)
    then show ?thesis
      by (intro wf_settled_grow [OF ws len]) (cases res; auto simp: s')+
  next
    case (Deliver m)
    with st have c: "consumer parse m s = Inr s'" by simp
    from c show ?thesis
    proof (cases rule: consumer_cases)
      case dropped
      show ?thesis
        by (rule wf_settled_grow [OF ws len]) (simp_all add: dropped)
    next
      case (called f v)
      from wf_pendingD [OF wp called(1)] obtain k where
        k: "f = Resolve k" "k < promises s" "call_tokens evs ! k = correlationId m" by blast
      show ?thesis
        by (rule wf_settled_grow [OF ws len]) (auto simp: called k Deliver)
    qed
  next
    case (Fire n0)
    with st have "step parse (Fire n0) s = Inr s'" by simp
    then show ?thesis
    proof (cases rule: step_Fire_cases)
      case unarmed
      then show ?thesis
        by (intro wf_settled_grow [OF ws len]) simp_all
    next
      case (fired tok d)
      from wf_timersD [OF wt fired(1)] have "n0 < promises s" "call_sends evs ! n0 = Sent"
        by simp_all
      then show ?thesis
        by (intro wf_settled_grow [OF ws len]) (auto simp: fired Fire split: if_splits)
    qed
  qed
qed

lemma settlements_cong: "settled s' = settled s \<Longrightarrow> settlements n s' = settlements n s"
  by (simp add: settlements_def)

lemma settlements_snoc:
  "settled s' = settled s @ [(k, x)]
   \<Longrightarrow> settlements n s' = (if n = k then settlements n s @ [x] else settlements n s)"
  by (simp add: settlements_def)

lemma settlements_empty:
  "(\<And>x. (n, x) \<notin> set (settled s)) \<Longrightarrow> settlements n s = []"
  by (auto simp: settlements_def filter_empty_conv)

lemma settlements_sendRpc [simp]:
  "settlements n (sendRpc q rq tok cmd pl res s)
     = settlements n s @ (if n = promises s then executor_settlements res else [])"
  by (cases res) (simp_all add: settlements_def)

lemma set_settlements: "x \<in> set (settlements n s) \<longleftrightarrow> (n, x) \<in> set (settled s)"
  by (force simp: settlements_def)

lemma countedD:
  "counted evs s \<Longrightarrow> n < promises s \<Longrightarrow>
     \<exists>rest. settlements n s = executor_settlements (call_sends evs ! n) @ rest \<and>
        (if map_of (pendingMap s) (call_tokens evs ! n) = Some (Resolve n)
         then rest = []
         else rest = [Rejected (Error ''RPC timeout'')] \<or> (\<exists>v. rest = [Fulfilled (Envelope v)]))"
  unfolding counted_def by blast

lemma countedI:
  "(\<And>n. n < promises s \<Longrightarrow>
     \<exists>rest. settlements n s = executor_settlements (call_sends evs ! n) @ rest \<and>
        (if map_of (pendingMap s) (call_tokens evs ! n) = Some (Resolve n)
         then rest = []
         else rest = [Rejected (Error ''RPC timeout'')] \<or> (\<exists>v. rest = [Fulfilled (Envelope v)])))
   \<Longrightarrow> counted evs s"
  unfolding counted_def by blast

lemma counted_step:
  assumes wt: "wf_timers evs s" and wp: "wf_pending evs s" and ws: "wf_settled parse evs s"
    and cn: "counted evs s" and dist: "distinct (call_tokens (evs @ [e]))"
    and st: "step parse e s = Inr s'"
  shows "counted (evs @ [e]) s'"
proof -
  note len = wf_timers_len [OF wt]
  from dist have d: "distinct (call_tokens evs)" by (simp add: call_tokens_append)
  have neq: "call_tokens evs ! n \<noteq> call_tokens evs ! k"
    if "n < promises s" "k < promises s" "n \<noteq> k" for n k
    using that d len by (simp add: nth_eq_iff_index_eq)
  have same: "\<exists>rest. settlements n s' = executor_settlements (call_sends (evs @ [e]) ! n) @ rest \<and>
        (if map_of (pendingMap s') (call_tokens (evs @ [e]) ! n) = Some (Resolve n)
         then rest = []
         else rest = [Rejected (Error ''RPC timeout'')] \<or> (\<exists>v. rest = [Fulfilled (Envelope v)]))"
    if n: "n < promises s" and "settlements n s' = settlements n s"
      and "map_of (pendingMap s') (call_tokens evs ! n) = map_of (pendingMap s) (call_tokens evs ! n)"
    for n
    using countedD [OF cn n] that len by (simp add: calls_stable)
  show ?thesis
  proof (cases e)
    case (Call q rq tok cmd pl res)
    with st have s': "s' = sendRpc q rq tok cmd pl res s" by simp
    from dist Call have fresh: "tok \<notin> set (call_tokens evs)"
      by (simp add: call_tokens_append)
    show ?thesis
    proof (rule countedI)
      fix n assume "n < promises s'"
      then have "n < promises s \<or> n = promises s"
        by (auto simp: s')
      then consider (old) "n < promises s" | (new) "n = promises s"
        by blast
      then show "\<exists>rest. settlements n s' = executor_settlements (call_sends (evs @ [e]) ! n) @ rest \<and>
        (if map_of (pendingMap s') (call_tokens (evs @ [e]) ! n) = Some (Resolve n)
         then rest = []
         else rest = [Rejected (Error ''RPC timeout'')] \<or> (\<exists>v. rest = [Fulfilled (Envelope v)]))"
      proof cases
        case old
        with len fresh have "call_tokens evs ! n \<noteq> tok" by (metis nth_mem)
        with old show ?thesis
          by (intro same) (simp_all add: s' update_conv')
      next
        case new
        have "settlements n s = []"
          using ws new unfolding wf_settled_def by (intro settlements_empty) auto
        with new len show ?thesis
          by (simp add: s' Call calls_snoc_Call nth_append length_call_sends update_conv')
      qed
    qed
  next
    case (Deliver m)
    with st have c: "consumer parse m s = Inr s'" by simp
    have tk: "call_tokens (evs @ [e]) = call_tokens evs" "call_sends (evs @ [e]) = call_sends evs"
      by (simp_all add: Deliver call_tokens_append call_sends_append)
    from c show ?thesis
    proof (cases rule: consumer_cases)
      case dropped
      with cn tk show ?thesis by (simp add: counted_def)
    next
      case (called f v)
      from wf_pendingD [OF wp called(1)] obtain k where
        k: "f = Resolve k" "k < promises s" "call_tokens evs ! k = correlationId m" by blast
      have st': "settled s' = settled s @ [(k, Fulfilled (Envelope v))]"
        "pendingMap s' = AList.delete (correlationId m) (pendingMap s)" "promises s' = promises s"
        by (simp_all add: called k)
      show ?thesis
      proof (rule countedI)
        fix n assume "n < promises s'"
        then have n: "n < promises s" by (simp add: st')
        show "\<exists>rest. settlements n s' = executor_settlements (call_sends (evs @ [e]) ! n) @ rest \<and>
          (if map_of (pendingMap s') (call_tokens (evs @ [e]) ! n) = Some (Resolve n)
           then rest = []
           else rest = [Rejected (Error ''RPC timeout'')] \<or> (\<exists>v. rest = [Fulfilled (Envelope v)]))"
        proof (cases "n = k")
          case True
          with countedD [OF cn n] called(1) k
          have "settlements k s = executor_settlements (call_sends evs ! k)" by auto
          with True k show ?thesis
            by (simp add: tk st' delete_conv' settlements_snoc [OF st'(1)])
        next
          case False
          with neq [OF n k(2)] k show ?thesis
            by (intro same [OF n]) (simp_all add: st' delete_conv' settlements_snoc [OF st'(1)])
        qed
      qed
    qed
  next
    case (Fire n0)
    have tk: "call_tokens (evs @ [e]) = call_tokens evs" "call_sends (evs @ [e]) = call_sends evs"
      by (simp_all add: Fire call_tokens_append call_sends_append)
    from st Fire have "step parse (Fire n0) s = Inr s'" by simp
    then show ?thesis
    proof (cases rule: step_Fire_cases)
      case unarmed
      with cn tk show ?thesis by (simp add: counted_def)
    next
      case (fired tok d)
      from wf_timersD [OF wt fired(1)]
      have n0: "n0 < promises s" "call_tokens evs ! n0 = tok" by simp_all
      show ?thesis
      proof (cases "map_of (pendingMap s) tok")
        case None
        then have "settled s' = settled s" "pendingMap s' = pendingMap s" "promises s' = promises s"
          by (simp_all add: fired map_of_eq_None_iff)
        with cn tk show ?thesis
          by (simp add: counted_def settlements_cong [of s' s])
      next
        case (Some f)
        from wf_pendingD [OF wp Some] obtain k where
          k: "f = Resolve k" "k < promises s" "call_tokens evs ! k = tok" by blast
        with n0 neq [of k n0] have "k = n0" by auto
        have st': "settled s' = settled s @ [(n0, Rejected (Error ''RPC timeout''))]"
          "pendingMap s' = AList.delete tok (pendingMap s)" "promises s' = promises s"
          by (simp_all add: fired Some)
        show ?thesis
        proof (rule countedI)
          fix n assume "n < promises s'"
          then have n: "n < promises s" by (simp add: st')
          show "\<exists>rest. settlements n s' = executor_settlements (call_sends (evs @ [e]) ! n) @ rest \<and>
            (if map_of (pendingMap s') (call_tokens (evs @ [e]) ! n) = Some (Resolve n)
             then rest = []
             else rest = [Rejected (Error ''RPC timeout'')] \<or> (\<exists>v. rest = [Fulfilled (Envelope v)]))"
          proof (cases "n = n0")
            case True
            with countedD [OF cn n] Some k \<open>k = n0\<close> n0
            have "settlements n0 s = executor_settlements (call_sends evs ! n0)" by auto
            with True n0 show ?thesis
              by (simp add: tk st' delete_conv' settlements_snoc [OF st'(1)])
          next
            case False
            with neq [OF n n0(1)] n0 show ?thesis
              by (intro same [OF n]) (simp_all add: st' delete_conv' settlements_snoc [OF st'(1)])
          qed
        qed
      qed
    qed
  qed
qed

lemma reachable_inv_init: "reachable_inv parse [] init"
  by (simp add: reachable_inv_def wf_timers_def wf_pending_def wf_settled_def init_def)

lemma distinct_keys_step:
  assumes "distinct (map fst (pendingMap s))" "distinct (map fst (timers s))"
    and st: "step parse e s = Inr s'"
  shows "distinct (map fst (pendingMap s')) \<and> distinct (map fst (timers s'))"
proof (cases e)
  case (Call q rq tok cmd pl res)
  with assms show ?thesis by (cases res) (auto simp: distinct_update)
next
  case (Deliver m)
  with st have "consumer parse m s = Inr s'" by simp
  note f = consumer_fields [OF this]
  with assms show ?thesis by (simp add: distinct_delete)
next
  case (Fire n)
  with assms show ?thesis
    by (cases "map_of (timers s) n") (auto simp: distinct_delete)
qed

lemma reachable_inv_step:
  assumes "reachable_inv parse evs s" "step parse e s = Inr s'"
  shows "reachable_inv parse (evs @ [e]) s'"
  using assms wf_timers_step [of evs s parse e s'] wf_pending_step [of evs s parse e s']
    wf_settled_step [of evs s parse e s'] distinct_keys_step [of s parse e s']
  by (simp add: reachable_inv_def)

lemma reachable_inv_run:
  "reachable_inv parse pre s \<Longrightarrow> run parse evs s = Inr s'
   \<Longrightarrow> reachable_inv parse (pre @ evs) s'"
proof (induction evs arbitrary: pre s)
  case Nil
  then show ?case by simp
next
  case (Cons e evs)
  from Cons.prems(2) obtain s1 where s1: "step parse e s = Inr s1" "run parse evs s1 = Inr s'"
    by (rule run_Cons_Inr)
  from reachable_inv_step [OF Cons.prems(1) s1(1)]
  have "reachable_inv parse ((pre @ [e]) @ evs) s'"
    by (rule Cons.IH) (rule s1(2))
  then show ?case by simp
qed

lemma counted_run:
  "reachable_inv parse pre s \<Longrightarrow> counted pre s \<Longrightarrow> distinct (call_tokens (pre @ evs))
   \<Longrightarrow> run parse evs s = Inr s' \<Longrightarrow> counted (pre @ evs) s'"
proof (induction evs arbitrary: pre s)
  case Nil
  then show ?case by simp
next
  case (Cons e evs)
  from Cons.prems(4) obtain s1 where s1: "step parse e s = Inr s1" "run parse evs s1 = Inr s'"
    by (rule run_Cons_Inr)
  from Cons.prems(3) have d2: "distinct (call_tokens ((pre @ [e]) @ evs))"
    by simp
  then have d1: "distinct (call_tokens (pre @ [e]))"
    unfolding call_tokens_append [of "pre @ [e]" evs] by simp
  from Cons.prems(1) have "wf_timers pre s" "wf_pending pre s" "wf_settled parse pre s"
    by (simp_all add: reachable_inv_def)
  from counted_step [OF this Cons.prems(2) d1 s1(1)]
  have c1: "counted (pre @ [e]) s1" .
  from reachable_inv_step [OF Cons.prems(1) s1(1)] c1 d2 s1(2)
  have "counted ((pre @ [e]) @ evs) s'"
    by (rule Cons.IH)
  then show ?case by simp
qed

lemma counted_init: "counted [] init"
  by (simp add: counted_def init_def)

lemma run_reachable:
  "run parse evs init = Inr s \<Longrightarrow> reachable_inv parse evs s"
  using reachable_inv_run [OF reachable_inv_init, of parse evs s] by simp

lemma run_counted:
  "run parse evs init = Inr s \<Longrightarrow> distinct (call_tokens evs) \<Longrightarrow> counted evs s"
  using counted_run [OF reachable_inv_init counted_init, of evs parse s] by simp

lemma step_settled_grows:
  assumes "step parse e s = Inr s'"
  shows "\<exists>xs. settled s' = settled s @ xs"
proof (cases e)
  case (Call q rq tok cmd pl res)
  with assms show ?thesis by auto
next
  case (Deliver m)
  with assms have "consumer parse m s = Inr s'" by simp
  then show ?thesis
  proof (cases rule: consumer_cases)
    case dropped
    then show ?thesis by simp
  next
    case (called f v)
    then show ?thesis by (cases f) simp_all
  qed
next
  case (Fire n)
  with assms show ?thesis
    by (cases "map_of (timers s) n") auto
qed

lemma run_settled_grows:
  "run parse evs s = Inr s' \<Longrightarrow> \<exists>xs. settled s' = settled s @ xs"
proof (induction evs arbitrary: s)
  case Nil
  then show ?case by simp
next
  case (Cons e evs)
  from Cons.prems obtain s1 where s1: "step parse e s = Inr s1" "run parse evs s1 = Inr s'"
    by (rule run_Cons_Inr)
  from step_settled_grows [OF s1(1)] Cons.IH [OF s1(2)] show ?case by auto
qed

lemma pending_kept_step:
  assumes inv: "reachable_inv parse evs s" and dist: "distinct (call_tokens (evs @ [e]))"
    and pend: "map_of (pendingMap s) tok = Some (Resolve n)"
    and nd: "\<And>m. e = Deliver m \<Longrightarrow> correlationId m \<noteq> tok" and nf: "e \<noteq> Fire n"
    and st: "step parse e s = Inr s'"
  shows "map_of (pendingMap s') tok = Some (Resolve n)"
proof -
  from inv have wt: "wf_timers evs s" and wp: "wf_pending evs s"
    by (simp_all add: reachable_inv_def)
  note len = wf_timers_len [OF wt]
  from wf_pendingD [OF wp pend] have n: "n < promises s" "call_tokens evs ! n = tok" by auto
  show ?thesis
  proof (cases e)
    case (Call q rq tok' cmd pl res)
    with dist have "tok' \<notin> set (call_tokens evs)" by (simp add: call_tokens_append)
    with n len have "tok' \<noteq> tok" by (metis nth_mem)
    with st Call pend show ?thesis by (auto simp: update_conv')
  next
    case (Deliver m)
    with st have "consumer parse m s = Inr s'" by simp
    from consumer_fields(3) [OF this] nd [OF Deliver] pend show ?thesis
      by (simp add: delete_conv')
  next
    case (Fire k)
    with nf have kn: "k \<noteq> n" by simp
    from st Fire have "step parse (Fire k) s = Inr s'" by simp
    then show ?thesis
    proof (cases rule: step_Fire_cases)
      case unarmed
      with pend show ?thesis by simp
    next
      case (fired tok' d)
      from wf_timersD [OF wt fired(1)]
      have k: "k < promises s" "call_tokens evs ! k = tok'" by simp_all
      from dist have "distinct (call_tokens evs)" by (simp add: call_tokens_append)
      with k n kn len have "tok' \<noteq> tok" by (auto simp: nth_eq_iff_index_eq)
      with fired pend show ?thesis by (auto simp: delete_conv')
    qed
  qed
qed

lemma pending_kept_run:
  "reachable_inv parse pre s \<Longrightarrow> distinct (call_tokens (pre @ mid))
   \<Longrightarrow> map_of (pendingMap s) tok = Some (Resolve n)
   \<Longrightarrow> \<forall>m. Deliver m \<in> set mid \<longrightarrow> correlationId m \<noteq> tok \<Longrightarrow> Fire n \<notin> set mid
   \<Longrightarrow> run parse mid s = Inr s'
   \<Longrightarrow> map_of (pendingMap s') tok = Some (Resolve n)"
proof (induction mid arbitrary: pre s)
  case Nil
  then show ?case by simp
next
  case (Cons e mid)
  from Cons.prems(6) obtain s1 where s1: "step parse e s = Inr s1" "run parse mid s1 = Inr s'"
    by (rule run_Cons_Inr)
  from Cons.prems(2) have d2: "distinct (call_tokens ((pre @ [e]) @ mid))" by simp
  then have d1: "distinct (call_tokens (pre @ [e]))"
    unfolding call_tokens_append [of "pre @ [e]" mid] by simp
  have "map_of (pendingMap s1) tok = Some (Resolve n)"
    using Cons.prems(1) d1 Cons.prems(3) _ _ s1(1)
    by (rule pending_kept_step) (use Cons.prems(4,5) in auto)
  with reachable_inv_step [OF Cons.prems(1) s1(1)] d2 show ?case
    by (rule Cons.IH) (use Cons.prems(4,5) s1(2) in auto)
qed

lemma in_flight:
  assumes run: "run parse (pre @ Call q rq tok cmd pl res # mid) init = Inr s"
    and dist: "distinct (call_tokens (pre @ Call q rq tok cmd pl res # mid))"
    and nd: "\<forall>m. Deliver m \<in> set mid \<longrightarrow> correlationId m \<noteq> tok"
    and nf: "Fire (length (call_tokens pre)) \<notin> set mid"
  shows "map_of (pendingMap s) tok = Some (Resolve (length (call_tokens pre)))"
    and "settlements (length (call_tokens pre)) s = executor_settlements res"
    and "res = Sent \<Longrightarrow> map_of (timers s) (length (call_tokens pre)) = Some (tok, 5000)"
proof -
  let ?n = "length (call_tokens pre)"
  let ?c = "Call q rq tok cmd pl res"
  let ?evs = "pre @ ?c # mid"
  from run obtain s0 where s0: "run parse pre init = Inr s0"
    and r1: "run parse (?c # mid) s0 = Inr s"
    by (auto simp: run_append split: sum.splits)
  define s1 where "s1 = sendRpc q rq tok cmd pl res s0"
  with r1 have r2: "run parse mid s1 = Inr s" by simp
  have st: "step parse ?c s0 = Inr s1" by (simp add: s1_def)
  from run_reachable [OF s0] have i0: "reachable_inv parse pre s0" .
  then have "promises s0 = ?n" by (simp add: reachable_inv_def wf_timers_def)
  then have p1: "map_of (pendingMap s1) tok = Some (Resolve ?n)"
    by (simp add: s1_def update_conv')
  from reachable_inv_step [OF i0 st]
  have i1: "reachable_inv parse (pre @ [?c]) s1" .
  from dist have d: "distinct (call_tokens ((pre @ [?c]) @ mid))" by simp
  from pending_kept_run [OF i1 d p1 nd nf r2]
  show p: "map_of (pendingMap s) tok = Some (Resolve ?n)" .
  from run_reachable [OF run] have i: "reachable_inv parse ?evs s" .
  then have wp: "wf_pending ?evs s" and wt: "wf_timers ?evs s" by (simp_all add: reachable_inv_def)
  have tn: "call_tokens ?evs ! ?n = tok" and sn: "call_sends ?evs ! ?n = res"
    by (simp_all add: call_tokens_append call_sends_append nth_append length_call_sends)
  from wf_timers_len [OF wt] have n: "?n < promises s"
    by (simp add: call_tokens_append)
  from wf_pendingD [OF wp p] sn
  show "map_of (timers s) ?n = Some (tok, 5000)" if "res = Sent"
    using that by auto
  from countedD [OF run_counted [OF run dist] n] p tn sn
  show "settlements ?n s = executor_settlements res" by auto
qed

lemma settled_once_final:
  assumes run: "run parse (evs @ post) init = Inr s" and dist: "distinct (call_tokens (evs @ post))"
    and mid: "run parse evs init = Inr s1" and n: "n < length (call_tokens evs)"
    and one: "settlements n s1 = executor_settlements (call_sends evs ! n) @ [x]"
  shows "settlements n s = executor_settlements (call_sends evs ! n) @ [x]"
proof -
  from run mid have "run parse post s1 = Inr s" by (simp add: run_append)
  from run_settled_grows [OF this] obtain xs where xs: "settled s = settled s1 @ xs" by blast
  then have app: "settlements n s
      = executor_settlements (call_sends evs ! n) @ x # map snd (filter (\<lambda>e. fst e = n) xs)"
    using one by (simp add: settlements_def)
  from run_reachable [OF run] have "promises s = length (call_tokens (evs @ post))"
    by (simp add: reachable_inv_def wf_timers_def)
  with n have "n < promises s" by (simp add: call_tokens_append)
  from countedD [OF run_counted [OF run dist] this] app n show ?thesis
    by (auto simp: calls_stable split: if_splits)
qed

lemma distinct_keys_filter:
  "distinct (map fst xs) \<Longrightarrow> length (filter (\<lambda>e. fst e = k) xs) \<le> 1"
proof (induction xs)
  case Nil
  then show ?case by simp
next
  case (Cons x xs)
  show ?case
  proof (cases "fst x = k")
    case True
    with Cons.prems have "k \<notin> fst ` set xs" by simp
    then have "filter (\<lambda>e. fst e = k) xs = []"
      unfolding filter_empty_conv by (metis image_eqI)
    with True show ?thesis by simp
  next
    case False
    with Cons show ?thesis by simp
  qed
qed

subsection \<open>Claims about the correlator\<close>



text \<open>
  The tokens have to differ. \<^verbatim>\<open>pendingMap.set\<close> overwrites the entry of a token that is already
  there, and a timer is never cleared, so it deletes whatever entry its token has when it
  fires. In the run below two calls get the same token: the first timer rejects the first
  promise and takes the second call's entry away, the reply is dropped, the second timer
  finds nothing, and nothing is ever called on the second promise.
\<close>

lemma repeated_token_loses_a_call:
  "run (map_of [(''A'', ''success''), (''B'', ''error'')])
       [Call ''item_requests'' ''amq.gen-1'' ''t1'' ''get_items'' () Sent,
        Call ''item_requests'' ''amq.gen-1'' ''t1'' ''get_items'' () Sent,
        Fire 0,
        Deliver \<lparr>correlationId = ''t1'', content = ''A''\<rparr>,
        Fire 1] init
     = Inr (\<lparr>pendingMap = [], timers = [],
        sent = [\<lparr>queue = ''item_requests'', command = ''get_items'', payload = (),
                 request_correlationId = ''t1'', replyTo = ''amq.gen-1''\<rparr>,
                \<lparr>queue = ''item_requests'', command = ''get_items'', payload = (),
                 request_correlationId = ''t1'', replyTo = ''amq.gen-1''\<rparr>],
        settled = [(0, Rejected (Error ''RPC timeout''))], promises = 2\<rparr> :: (unit, string) gateway)"
  by (simp add: init_def sendRpc_def consumer_def on_timeout_def)

text \<open>
  Claim C2. In a run with pairwise different tokens, take a call with token \<open>tok\<close> and the
  first message with that token delivered after it, the call's timer not having fired yet.
  Whatever other calls, replies and timers come before the call (\<open>pre\<close>), between the call and
  its reply (\<open>mid\<close>) and after the reply (\<open>post\<close>), in whatever order, the one thing the call's
  promise is ever resolved with is the parsed body of that message, and nothing else is
  called on it (but for the rejection by the \<^verbatim>\<open>Promise\<close> constructor, had \<^verbatim>\<open>sendToQueue\<close>
  thrown: for a request that was sent, \<open>executor_settlements\<close> is empty). Moreover no promise
  is ever resolved with anything but the parsed body of a message that carried its own token.
\<close>

theorem concurrent_calls_resolve_with_own_reply:
  assumes run: "run parse (pre @ Call q rq tok cmd pl res # mid @ Deliver m # post) init = Inr s"
    and dist: "distinct (call_tokens (pre @ Call q rq tok cmd pl res # mid @ Deliver m # post))"
    and tok: "correlationId m = tok"
    and nd: "\<forall>m'. Deliver m' \<in> set mid \<longrightarrow> correlationId m' \<noteq> tok"
    and nf: "Fire (length (call_tokens pre)) \<notin> set mid"
  shows "(\<exists>v. parse (content m) = Some v
            \<and> settlements (length (call_tokens pre)) s
                = executor_settlements res @ [Fulfilled (Envelope v)])
     \<and> (\<forall>n v. Fulfilled v \<in> set (settlements n s) \<longrightarrow>
            (\<exists>m' v'. Deliver m' \<in> set (pre @ Call q rq tok cmd pl res # mid @ Deliver m # post)
               \<and> correlationId m'
                   = call_tokens (pre @ Call q rq tok cmd pl res # mid @ Deliver m # post) ! n
               \<and> parse (content m') = Some v' \<and> v = Envelope v'))"
proof -
  let ?n = "length (call_tokens pre)"
  let ?upto = "pre @ Call q rq tok cmd pl res # mid"
  let ?evs = "pre @ Call q rq tok cmd pl res # mid @ Deliver m # post"
  have split: "?evs = (?upto @ [Deliver m]) @ post" by simp
  from run obtain s2 where s2: "run parse ?upto init = Inr s2"
    and r2: "run parse (Deliver m # post) s2 = Inr s"
    using run_append [of parse ?upto "Deliver m # post" init] by (auto split: sum.splits)
  from r2 obtain s3 where s3: "consumer parse m s2 = Inr s3" and r3: "run parse post s3 = Inr s"
    by (auto split: sum.splits)
  have d2: "distinct (call_tokens ?upto)"
    using dist by (auto simp: call_tokens_append)
  note fl = in_flight [OF s2 d2 nd nf]
  from s3 fl(1) tok obtain v where v: "parse (content m) = Some v"
    and s3': "s3 = (invoke (Resolve ?n) (Envelope v) s2)
                     \<lparr>pendingMap := AList.delete (correlationId m) (pendingMap s2)\<rparr>"
    by (cases rule: consumer_cases) auto
  have sn: "call_sends (?upto @ [Deliver m]) ! ?n = res" and ln: "?n < length (call_tokens (?upto @ [Deliver m]))"
    by (simp_all add: call_tokens_append call_sends_append nth_append length_call_sends)
  from s3' fl(2) have one: "settlements ?n s3
      = executor_settlements (call_sends (?upto @ [Deliver m]) ! ?n) @ [Fulfilled (Envelope v)]"
    unfolding sn by (simp add: settlements_def)
  have r23: "run parse (?upto @ [Deliver m]) init = Inr s3"
    by (rule run_snoc [OF s2]) (simp add: s3)
  from run dist have "settlements ?n s
      = executor_settlements (call_sends (?upto @ [Deliver m]) ! ?n) @ [Fulfilled (Envelope v)]"
    unfolding split by (rule settled_once_final) (rule r23, rule ln, rule one)
  then have fin: "settlements ?n s = executor_settlements res @ [Fulfilled (Envelope v)]"
    unfolding sn .
  from run_reachable [OF run] have "wf_settled parse ?evs s" by (simp add: reachable_inv_def)
  then have "\<forall>n v. Fulfilled v \<in> set (settlements n s) \<longrightarrow>
            (\<exists>m' v'. Deliver m' \<in> set ?evs \<and> correlationId m' = call_tokens ?evs ! n
               \<and> parse (content m') = Some v' \<and> v = Envelope v')"
    unfolding wf_settled_def set_settlements by blast
  with fin v show ?thesis by blast
qed

theorem concurrent_calls_resolve_with_own_reply_witness:
  "run (map_of [(''A'', ''success''), (''B'', ''error'')])
       [Call ''item_requests'' ''amq.gen-1'' ''t1'' ''get_items'' () Sent,
        Call ''item_requests'' ''amq.gen-1'' ''t2'' ''delete_item'' () Sent,
        Deliver \<lparr>correlationId = ''t2'', content = ''B''\<rparr>,
        Deliver \<lparr>correlationId = ''t1'', content = ''A''\<rparr>] init
     = Inr (\<lparr>pendingMap = [], timers = [(0, ''t1'', 5000), (1, ''t2'', 5000)],
        sent = [\<lparr>queue = ''item_requests'', command = ''get_items'', payload = (),
                 request_correlationId = ''t1'', replyTo = ''amq.gen-1''\<rparr>,
                \<lparr>queue = ''item_requests'', command = ''delete_item'', payload = (),
                 request_correlationId = ''t2'', replyTo = ''amq.gen-1''\<rparr>],
        settled = [(1, Fulfilled (Envelope ''error'')), (0, Fulfilled (Envelope ''success''))], promises = 2\<rparr> :: (unit, string) gateway)
   \<and> settlements 0 (\<lparr>pendingMap = [], timers = [(0, ''t1'', 5000), (1, ''t2'', 5000)],
        sent = [\<lparr>queue = ''item_requests'', command = ''get_items'', payload = (),
                 request_correlationId = ''t1'', replyTo = ''amq.gen-1''\<rparr>,
                \<lparr>queue = ''item_requests'', command = ''delete_item'', payload = (),
                 request_correlationId = ''t2'', replyTo = ''amq.gen-1''\<rparr>],
        settled = [(1, Fulfilled (Envelope ''error'')), (0, Fulfilled (Envelope ''success''))], promises = 2\<rparr> :: (unit, string) gateway)
       = [Fulfilled (Envelope ''success'')]"
proof -
  let ?P = "(map_of [(''A'', ''success''), (''B'', ''error'')]) :: string \<Rightarrow> string option"
  let ?mid = "[Call ''item_requests'' ''amq.gen-1'' ''t2'' ''delete_item'' () Sent,
         Deliver \<lparr>correlationId = ''t2'', content = ''B''\<rparr>] :: unit event list"
  let ?m = "\<lparr>correlationId = ''t1'', content = ''A''\<rparr>"
  let ?S = "(\<lparr>pendingMap = [], timers = [(0, ''t1'', 5000), (1, ''t2'', 5000)],
        sent = [\<lparr>queue = ''item_requests'', command = ''get_items'', payload = (),
                 request_correlationId = ''t1'', replyTo = ''amq.gen-1''\<rparr>,
                \<lparr>queue = ''item_requests'', command = ''delete_item'', payload = (),
                 request_correlationId = ''t2'', replyTo = ''amq.gen-1''\<rparr>],
        settled = [(1, Fulfilled (Envelope ''error'')), (0, Fulfilled (Envelope ''success''))], promises = 2\<rparr> :: (unit, string) gateway)"
  have r: "run ?P ([] @ Call ''item_requests'' ''amq.gen-1'' ''t1'' ''get_items'' () Sent # ?mid @ Deliver ?m # []) init = Inr ?S"
    by (simp add: init_def sendRpc_def consumer_def on_timeout_def)
  have d: "distinct (call_tokens ([] @ (Call ''item_requests'' ''amq.gen-1'' ''t1'' ''get_items'' () Sent :: unit event) # ?mid @ Deliver ?m # []))"
    by simp
  have t: "correlationId ?m = ''t1''" by simp
  have nd: "\<forall>m'. Deliver m' \<in> set ?mid \<longrightarrow> correlationId m' \<noteq> ''t1''" by simp
  have nf: "Fire (length (call_tokens ([] :: unit event list))) \<notin> set ?mid" by simp
  from concurrent_calls_resolve_with_own_reply [OF r d t nd nf]
  have "\<exists>v. ?P (content ?m) = Some v
          \<and> settlements 0 ?S = executor_settlements Sent @ [Fulfilled (Envelope v)]"
    by simp
  then have "settlements 0 ?S = [Fulfilled (Envelope ''success'')]" by simp
  with r show ?thesis by simp
qed

text \<open>
  Claim C3. In every state the event loop can reach, a token has at most one entry in the
  pending map, and a message whose token has no entry there is dropped: the consumer returns
  without an exception and leaves the state as it was (so nothing is called on any promise),
  whatever the body, and every later run goes on as if the message had not come.
\<close>

theorem unknown_token_dropped:
  assumes run: "run parse evs init = Inr s"
  shows "(\<forall>tok. length (filter (\<lambda>e. fst e = tok) (pendingMap s)) \<le> 1)
     \<and> (\<forall>m rest. map_of (pendingMap s) (correlationId m) = None
          \<longrightarrow> consumer parse m s = Inr s
              \<and> run parse (Deliver m # rest) s = run parse rest s)"
proof -
  from run_reachable [OF run] have "distinct (map fst (pendingMap s))"
    by (simp add: reachable_inv_def)
  then have "\<forall>tok. length (filter (\<lambda>e. fst e = tok) (pendingMap s)) \<le> 1"
    by (intro allI distinct_keys_filter)
  moreover have "consumer parse m s = Inr s \<and> run parse (Deliver m # rest) s = run parse rest s"
    if "map_of (pendingMap s) (correlationId m) = None" for m rest
    using that by (simp add: consumer_def)
  ultimately show ?thesis by blast
qed

theorem unknown_token_dropped_witness:
  "run (map_of [(''A'', ''success''), (''B'', ''error'')])
       [Call ''item_requests'' ''amq.gen-1'' ''t1'' ''get_items'' () Sent] init
     = Inr (\<lparr>pendingMap = [(''t1'', Resolve 0)], timers = [(0, ''t1'', 5000)],
        sent = [\<lparr>queue = ''item_requests'', command = ''get_items'', payload = (),
                 request_correlationId = ''t1'', replyTo = ''amq.gen-1''\<rparr>],
        settled = [], promises = 1\<rparr> :: (unit, string) gateway)
   \<and> map_of (pendingMap (\<lparr>pendingMap = [(''t1'', Resolve 0)], timers = [(0, ''t1'', 5000)],
        sent = [\<lparr>queue = ''item_requests'', command = ''get_items'', payload = (),
                 request_correlationId = ''t1'', replyTo = ''amq.gen-1''\<rparr>],
        settled = [], promises = 1\<rparr> :: (unit, string) gateway)) ''t9'' = None
   \<and> consumer (map_of [(''A'', ''success''), (''B'', ''error'')])
       \<lparr>correlationId = ''t9'', content = ''not json''\<rparr>
       (\<lparr>pendingMap = [(''t1'', Resolve 0)], timers = [(0, ''t1'', 5000)],
        sent = [\<lparr>queue = ''item_requests'', command = ''get_items'', payload = (),
                 request_correlationId = ''t1'', replyTo = ''amq.gen-1''\<rparr>],
        settled = [], promises = 1\<rparr> :: (unit, string) gateway)
     = Inr (\<lparr>pendingMap = [(''t1'', Resolve 0)], timers = [(0, ''t1'', 5000)],
        sent = [\<lparr>queue = ''item_requests'', command = ''get_items'', payload = (),
                 request_correlationId = ''t1'', replyTo = ''amq.gen-1''\<rparr>],
        settled = [], promises = 1\<rparr> :: (unit, string) gateway)"
proof -
  let ?P = "(map_of [(''A'', ''success''), (''B'', ''error'')]) :: string \<Rightarrow> string option"
  let ?m = "\<lparr>correlationId = ''t9'', content = ''not json''\<rparr>"
  let ?S = "(\<lparr>pendingMap = [(''t1'', Resolve 0)], timers = [(0, ''t1'', 5000)],
        sent = [\<lparr>queue = ''item_requests'', command = ''get_items'', payload = (),
                 request_correlationId = ''t1'', replyTo = ''amq.gen-1''\<rparr>],
        settled = [], promises = 1\<rparr> :: (unit, string) gateway)"
  have r: "run ?P [Call ''item_requests'' ''amq.gen-1'' ''t1'' ''get_items'' () Sent] init = Inr ?S"
    by (simp add: init_def sendRpc_def consumer_def on_timeout_def)
  have a: "map_of (pendingMap ?S) (correlationId ?m) = None" by simp
  from unknown_token_dropped [OF r] a have "consumer ?P ?m ?S = Inr ?S" by blast
  with r a show ?thesis by simp
qed

text \<open>
  Claim C4 as stated fails for a call whose \<^verbatim>\<open>sendToQueue\<close> throws inside the executor (the
  channel is closed): no request leaves, so no reply ever arrives; the promise is rejected
  with the thrown error, not with a timeout error; \<^verbatim>\<open>setTimeout\<close> is never reached, so nothing
  ever removes the entry that \<^verbatim>\<open>pendingMap.set\<close> had stored.
\<close>

theorem sendToQueue_throws_entry_stays_counterexample:
  "run (map_of [(''A'', ''success''), (''B'', ''error'')])
       [Call ''item_requests'' ''amq.gen-1'' ''t1'' ''get_items'' () (Throws ''Channel closed''),
        Fire 0] init
     = Inr (\<lparr>pendingMap = [(''t1'', Resolve 0)], timers = [], sent = [],
             settled = [(0, Rejected (Thrown ''Channel closed''))],
             promises = 1\<rparr> :: (unit, string) gateway)"
  by (simp add: init_def sendRpc_def consumer_def on_timeout_def)

text \<open>
  Claim C4, as the code has it. In a run with pairwise different tokens, take a call with
  token \<open>tok\<close> whose request was sent (\<^verbatim>\<open>sendToQueue\<close> returned) and whose timer fires before
  any message with that token has been delivered. The timer was armed with a delay of 5000
  ms. Whatever else happens before, in between and afterwards (late replies included), the
  one thing ever called on the call's promise is \<^verbatim>\<open>reject\<close> with the error \<^verbatim>\<open>RPC timeout\<close>, and at
  the end the pending map has no entry for the token. Whenever all armed timers have fired,
  the pending map has no entry of any call whose request was sent.
\<close>

theorem timeout_rejects_and_releases:
  assumes run: "run parse (pre @ Call q rq tok cmd pl Sent # mid @ Fire n # post) init = Inr s"
    and dist: "distinct (call_tokens (pre @ Call q rq tok cmd pl Sent # mid @ Fire n # post))"
    and n: "n = length (call_tokens pre)"
    and nd: "\<forall>m. Deliver m \<in> set mid \<longrightarrow> correlationId m \<noteq> tok"
    and nf: "Fire n \<notin> set mid"
  shows "(\<exists>s2. run parse (pre @ Call q rq tok cmd pl Sent # mid) init = Inr s2
             \<and> map_of (timers s2) n = Some (tok, 5000))
     \<and> settlements n s = [Rejected (Error ''RPC timeout'')]
     \<and> map_of (pendingMap s) tok = None
     \<and> (timers s = [] \<longrightarrow>
          (\<forall>k<length (call_tokens (pre @ Call q rq tok cmd pl Sent # mid @ Fire n # post)).
             call_sends (pre @ Call q rq tok cmd pl Sent # mid @ Fire n # post) ! k = Sent
             \<longrightarrow> map_of (pendingMap s)
                   (call_tokens (pre @ Call q rq tok cmd pl Sent # mid @ Fire n # post) ! k) = None))"
proof -
  let ?upto = "pre @ Call q rq tok cmd pl Sent # mid"
  let ?evs = "pre @ Call q rq tok cmd pl Sent # mid @ Fire n # post"
  have split: "?evs = (?upto @ [Fire n]) @ post" by simp
  from run obtain s2 where s2: "run parse ?upto init = Inr s2"
    and r2: "run parse (Fire n # post) s2 = Inr s"
    using run_append [of parse ?upto "Fire n # post" init] by (auto split: sum.splits)
  have d2: "distinct (call_tokens ?upto)"
    using dist by (auto simp: call_tokens_append)
  note fl = in_flight [OF s2 d2 nd nf [unfolded n], folded n]
  from fl(3) have armed: "map_of (timers s2) n = Some (tok, 5000)" by simp
  define s3 where "s3 = on_timeout n tok (s2\<lparr>timers := AList.delete n (timers s2)\<rparr>)"
  with r2 armed have st3: "step parse (Fire n) s2 = Inr s3" and r3: "run parse post s3 = Inr s"
    by simp_all
  have sn: "call_sends (?upto @ [Fire n]) ! n = Sent"
    and ln: "n < length (call_tokens (?upto @ [Fire n]))"
    by (simp_all add: n call_tokens_append call_sends_append nth_append length_call_sends)
  from fl(1,2) have one: "settlements n s3
      = executor_settlements (call_sends (?upto @ [Fire n]) ! n) @ [Rejected (Error ''RPC timeout'')]"
    unfolding sn by (simp add: s3_def settlements_def)
  have r23: "run parse (?upto @ [Fire n]) init = Inr s3"
    by (rule run_snoc [OF s2 st3])
  from run dist have "settlements n s
      = executor_settlements (call_sends (?upto @ [Fire n]) ! n) @ [Rejected (Error ''RPC timeout'')]"
    unfolding split by (rule settled_once_final) (rule r23, rule ln, rule one)
  then have fin: "settlements n s = [Rejected (Error ''RPC timeout'')]"
    unfolding sn by simp
  from run_reachable [OF run] have wt: "wf_timers ?evs s" and wp: "wf_pending ?evs s"
    by (simp_all add: reachable_inv_def)
  from wt have ps: "promises s = length (call_tokens ?evs)" by (simp add: wf_timers_def)
  then have np: "n < promises s" and tn: "call_tokens ?evs ! n = tok"
    and sn': "call_sends ?evs ! n = Sent"
    by (simp_all add: n call_tokens_append call_sends_append nth_append length_call_sends)
  have gone: "map_of (pendingMap s) tok = None"
  proof (rule ccontr)
    assume "map_of (pendingMap s) tok \<noteq> None"
    then obtain f where f: "map_of (pendingMap s) tok = Some f" by auto
    from wf_pendingD [OF wp f] obtain k where
      k: "f = Resolve k" "k < promises s" "call_tokens ?evs ! k = tok" by blast
    with np tn dist ps have "k = n" by (metis nth_eq_iff_index_eq)
    with countedD [OF run_counted [OF run dist] np] tn sn' f k fin show False by auto
  qed
  have leak: "map_of (pendingMap s) (call_tokens ?evs ! k) = None"
    if t: "timers s = []" and k: "k < length (call_tokens ?evs)" and sk: "call_sends ?evs ! k = Sent"
    for k
  proof (rule ccontr)
    assume "map_of (pendingMap s) (call_tokens ?evs ! k) \<noteq> None"
    then obtain f where f: "map_of (pendingMap s) (call_tokens ?evs ! k) = Some f" by auto
    from wf_pendingD [OF wp f] obtain k' where
      k': "f = Resolve k'" "k' < promises s" "call_tokens ?evs ! k' = call_tokens ?evs ! k"
        "map_of (timers s) k' = Some (call_tokens ?evs ! k, 5000)
          \<or> (\<exists>e. call_sends ?evs ! k' = Throws e)" by blast
    from k'(2,3) k dist ps have "k' = k" by (metis nth_eq_iff_index_eq)
    with k'(4) t sk show False by simp
  qed
  from s2 armed fin gone leak show ?thesis by blast
qed

theorem timeout_rejects_and_releases_witness:
  "run (map_of [(''A'', ''success''), (''B'', ''error'')])
       [Call ''item_requests'' ''amq.gen-1'' ''t1'' ''get_items'' () Sent, Fire 0,
        Deliver \<lparr>correlationId = ''t1'', content = ''A''\<rparr>] init
     = Inr (\<lparr>pendingMap = [], timers = [],
        sent = [\<lparr>queue = ''item_requests'', command = ''get_items'', payload = (),
                 request_correlationId = ''t1'', replyTo = ''amq.gen-1''\<rparr>],
        settled = [(0, Rejected (Error ''RPC timeout''))], promises = 1\<rparr> :: (unit, string) gateway)
   \<and> settlements 0 (\<lparr>pendingMap = [], timers = [],
        sent = [\<lparr>queue = ''item_requests'', command = ''get_items'', payload = (),
                 request_correlationId = ''t1'', replyTo = ''amq.gen-1''\<rparr>],
        settled = [(0, Rejected (Error ''RPC timeout''))], promises = 1\<rparr> :: (unit, string) gateway)
       = [Rejected (Error ''RPC timeout'')]
   \<and> map_of (pendingMap (\<lparr>pendingMap = [], timers = [],
        sent = [\<lparr>queue = ''item_requests'', command = ''get_items'', payload = (),
                 request_correlationId = ''t1'', replyTo = ''amq.gen-1''\<rparr>],
        settled = [(0, Rejected (Error ''RPC timeout''))], promises = 1\<rparr> :: (unit, string) gateway)) ''t1'' = None"
proof -
  let ?P = "(map_of [(''A'', ''success''), (''B'', ''error'')]) :: string \<Rightarrow> string option"
  let ?post = "[Deliver \<lparr>correlationId = ''t1'', content = ''A''\<rparr>] :: unit event list"
  let ?S = "(\<lparr>pendingMap = [], timers = [],
        sent = [\<lparr>queue = ''item_requests'', command = ''get_items'', payload = (),
                 request_correlationId = ''t1'', replyTo = ''amq.gen-1''\<rparr>],
        settled = [(0, Rejected (Error ''RPC timeout''))], promises = 1\<rparr> :: (unit, string) gateway)"
  have r: "run ?P ([] @ Call ''item_requests'' ''amq.gen-1'' ''t1'' ''get_items'' () Sent # [] @ Fire 0 # ?post) init = Inr ?S"
    by (simp add: init_def sendRpc_def consumer_def on_timeout_def)
  have d: "distinct (call_tokens ([] @ (Call ''item_requests'' ''amq.gen-1'' ''t1'' ''get_items'' () Sent :: unit event) # [] @ Fire 0 # ?post))"
    by simp
  have n: "0 = length (call_tokens ([] :: unit event list))" by simp
  have nd: "\<forall>m. Deliver m \<in> set ([] :: unit event list) \<longrightarrow> correlationId m \<noteq> ''t1''" by simp
  have nf: "Fire 0 \<notin> set ([] :: unit event list)" by simp
  from timeout_rejects_and_releases [OF r d n nd nf]
  have "settlements 0 ?S = [Rejected (Error ''RPC timeout'')] \<and> map_of (pendingMap ?S) ''t1'' = None"
    by (elim conjE) simp
  with r show ?thesis by simp
qed

text \<open>
  Claim C7 as stated fails: a reply to a pending call whose body is not JSON makes the
  consumer callback throw into the consume loop.
\<close>

theorem consumer_unparsable_body_counterexample:
  "run (map_of [(''A'', ''success''), (''B'', ''error'')])
       [Call ''item_requests'' ''amq.gen-1'' ''t1'' ''get_items'' () Sent,
        Deliver \<lparr>correlationId = ''t1'', content = ''not json''\<rparr>] init
     = Inl (SyntaxError, (\<lparr>pendingMap = [(''t1'', Resolve 0)], timers = [(0, ''t1'', 5000)],
        sent = [\<lparr>queue = ''item_requests'', command = ''get_items'', payload = (),
                 request_correlationId = ''t1'', replyTo = ''amq.gen-1''\<rparr>],
        settled = [], promises = 1\<rparr> :: (unit, string) gateway))"
  by (simp add: init_def sendRpc_def consumer_def on_timeout_def)

text \<open>
  Claim C7, as the code has it. A message whose token has no entry in the pending map is
  dropped without being parsed and without an exception, whatever its body: the state stays
  as it was. For a token that has an entry, \<^verbatim>\<open>JSON.parse\<close> is called unguarded, before anything
  else. When the body does not parse, the consumer callback throws \<^verbatim>\<open>SyntaxError\<close> and leaves
  the state as it was: no function has been called and the entry is still in the map. When
  the body parses, the callback returns, having called the stored function with the parsed
  body and then deleted the entry: in the resulting state the call of the function is the
  last one recorded, and the token has no entry.
\<close>

theorem consumer_throws_iff_pending_and_unparsable:
  "(map_of (pendingMap s) (correlationId m) = None \<longrightarrow> consumer parse m s = Inr s)
   \<and> (\<forall>resolver. map_of (pendingMap s) (correlationId m) = Some resolver
         \<longrightarrow> parse (content m) = None
         \<longrightarrow> consumer parse m s = Inl (SyntaxError, s))
   \<and> (\<forall>resolver v. map_of (pendingMap s) (correlationId m) = Some resolver
         \<longrightarrow> parse (content m) = Some v
         \<longrightarrow> consumer parse m s
               = Inr ((invoke resolver (Envelope v) s)
                       \<lparr>pendingMap := AList.delete (correlationId m) (pendingMap s)\<rparr>))
   \<and> (\<forall>n v. map_of (pendingMap s) (correlationId m) = Some (Resolve n)
         \<longrightarrow> parse (content m) = Some v
         \<longrightarrow> (\<exists>s'. consumer parse m s = Inr s'
               \<and> settled s' = settled s @ [(n, Fulfilled (Envelope v))]
               \<and> map_of (pendingMap s') (correlationId m) = None))
   \<and> ((\<exists>thrown. consumer parse m s = Inl thrown)
        \<longleftrightarrow> map_of (pendingMap s) (correlationId m) \<noteq> None \<and> parse (content m) = None)"
  by (auto simp: consumer_def delete_conv' split: option.splits)

theorem consumer_throws_iff_pending_and_unparsable_witness:
  "map_of (pendingMap (\<lparr>pendingMap = [(''t1'', Resolve 0)], timers = [(0, ''t1'', 5000)],
        sent = [\<lparr>queue = ''item_requests'', command = ''get_items'', payload = (),
                 request_correlationId = ''t1'', replyTo = ''amq.gen-1''\<rparr>],
        settled = [], promises = 1\<rparr> :: (unit, string) gateway)) ''t1'' = Some (Resolve 0)
   \<and> (map_of [(''A'', ''success''), (''B'', ''error'')]) ''not json'' = None
   \<and> consumer (map_of [(''A'', ''success''), (''B'', ''error'')])
       \<lparr>correlationId = ''t1'', content = ''not json''\<rparr>
       (\<lparr>pendingMap = [(''t1'', Resolve 0)], timers = [(0, ''t1'', 5000)],
        sent = [\<lparr>queue = ''item_requests'', command = ''get_items'', payload = (),
                 request_correlationId = ''t1'', replyTo = ''amq.gen-1''\<rparr>],
        settled = [], promises = 1\<rparr> :: (unit, string) gateway)
     = Inl (SyntaxError, (\<lparr>pendingMap = [(''t1'', Resolve 0)], timers = [(0, ''t1'', 5000)],
        sent = [\<lparr>queue = ''item_requests'', command = ''get_items'', payload = (),
                 request_correlationId = ''t1'', replyTo = ''amq.gen-1''\<rparr>],
        settled = [], promises = 1\<rparr> :: (unit, string) gateway))
   \<and> (map_of [(''A'', ''success''), (''B'', ''error'')]) ''B'' = Some ''error''
   \<and> consumer (map_of [(''A'', ''success''), (''B'', ''error'')])
       \<lparr>correlationId = ''t1'', content = ''B''\<rparr>
       (\<lparr>pendingMap = [(''t1'', Resolve 0)], timers = [(0, ''t1'', 5000)],
        sent = [\<lparr>queue = ''item_requests'', command = ''get_items'', payload = (),
                 request_correlationId = ''t1'', replyTo = ''amq.gen-1''\<rparr>],
        settled = [], promises = 1\<rparr> :: (unit, string) gateway)
     = Inr (\<lparr>pendingMap = [], timers = [(0, ''t1'', 5000)],
        sent = [\<lparr>queue = ''item_requests'', command = ''get_items'', payload = (),
                 request_correlationId = ''t1'', replyTo = ''amq.gen-1''\<rparr>],
        settled = [(0, Fulfilled (Envelope ''error''))], promises = 1\<rparr> :: (unit, string) gateway)
   \<and> map_of (pendingMap (\<lparr>pendingMap = [(''t1'', Resolve 0)], timers = [(0, ''t1'', 5000)],
        sent = [\<lparr>queue = ''item_requests'', command = ''get_items'', payload = (),
                 request_correlationId = ''t1'', replyTo = ''amq.gen-1''\<rparr>],
        settled = [], promises = 1\<rparr> :: (unit, string) gateway)) ''t9'' = None
   \<and> consumer (map_of [(''A'', ''success''), (''B'', ''error'')])
       \<lparr>correlationId = ''t9'', content = ''not json''\<rparr>
       (\<lparr>pendingMap = [(''t1'', Resolve 0)], timers = [(0, ''t1'', 5000)],
        sent = [\<lparr>queue = ''item_requests'', command = ''get_items'', payload = (),
                 request_correlationId = ''t1'', replyTo = ''amq.gen-1''\<rparr>],
        settled = [], promises = 1\<rparr> :: (unit, string) gateway)
     = Inr (\<lparr>pendingMap = [(''t1'', Resolve 0)], timers = [(0, ''t1'', 5000)],
        sent = [\<lparr>queue = ''item_requests'', command = ''get_items'', payload = (),
                 request_correlationId = ''t1'', replyTo = ''amq.gen-1''\<rparr>],
        settled = [], promises = 1\<rparr> :: (unit, string) gateway)"
proof -
  let ?P = "(map_of [(''A'', ''success''), (''B'', ''error'')]) :: string \<Rightarrow> string option"
  let ?S = "(\<lparr>pendingMap = [(''t1'', Resolve 0)], timers = [(0, ''t1'', 5000)],
        sent = [\<lparr>queue = ''item_requests'', command = ''get_items'', payload = (),
                 request_correlationId = ''t1'', replyTo = ''amq.gen-1''\<rparr>],
        settled = [], promises = 1\<rparr> :: (unit, string) gateway)"
  let ?m1 = "\<lparr>correlationId = ''t1'', content = ''not json''\<rparr>"
  let ?m2 = "\<lparr>correlationId = ''t1'', content = ''B''\<rparr>"
  let ?m9 = "\<lparr>correlationId = ''t9'', content = ''not json''\<rparr>"
  have a: "map_of (pendingMap ?S) (correlationId ?m1) = Some (Resolve 0)" "?P (content ?m1) = None"
    by simp_all
  have a2: "map_of (pendingMap ?S) (correlationId ?m2) = Some (Resolve 0)"
    "?P (content ?m2) = Some ''error''"
    by simp_all
  have b: "map_of (pendingMap ?S) (correlationId ?m9) = None" by simp
  from consumer_throws_iff_pending_and_unparsable [of ?S ?m1 ?P] a
  have 1: "consumer ?P ?m1 ?S = Inl (SyntaxError, ?S)" by blast
  from consumer_throws_iff_pending_and_unparsable [of ?S ?m2 ?P] a2
  have "consumer ?P ?m2 ?S
      = Inr ((invoke (Resolve 0) (Envelope ''error'') ?S)
              \<lparr>pendingMap := AList.delete (correlationId ?m2) (pendingMap ?S)\<rparr>)"
    by blast
  then have 2: "consumer ?P ?m2 ?S = Inr (\<lparr>pendingMap = [], timers = [(0, ''t1'', 5000)],
        sent = [\<lparr>queue = ''item_requests'', command = ''get_items'', payload = (),
                 request_correlationId = ''t1'', replyTo = ''amq.gen-1''\<rparr>],
        settled = [(0, Fulfilled (Envelope ''error''))], promises = 1\<rparr> :: (unit, string) gateway)"
    by simp
  from consumer_throws_iff_pending_and_unparsable [of ?S ?m9 ?P] b
  have 3: "consumer ?P ?m9 ?S = Inr ?S" by blast
  from a a2 b 1 2 3 show ?thesis by simp
qed




section \<open>The codec is a round trip\<close>

declare show_nat.simps [simp del]














































lemma request_body_example:
  "request_body ''get_items'' (JObj [(''n'', JNum True 1 [5])])
     = [CHR ''{'', CHR 0x22, CHR ''c'', CHR ''o'', CHR ''m'', CHR ''m'', CHR ''a'', CHR ''n'',
        CHR ''d'', CHR 0x22, CHR '':'', CHR 0x22, CHR ''g'', CHR ''e'', CHR ''t'', CHR ''_'',
        CHR ''i'', CHR ''t'', CHR ''e'', CHR ''m'', CHR ''s'', CHR 0x22, CHR '','', CHR 0x22,
        CHR ''p'', CHR ''a'', CHR ''y'', CHR ''l'', CHR ''o'', CHR ''a'', CHR ''d'', CHR 0x22,
        CHR '':'', CHR ''{'', CHR 0x22, CHR ''n'', CHR 0x22, CHR '':'', CHR ''-'', CHR ''1'',
        CHR ''.'', CHR ''5'', CHR ''}'', CHR ''}'']"
  by code_simp

section \<open>Claims about the router\<close>

lemma put_item_publishes_iff:
  "(\<exists>ev. Publish ev \<in> set (put_item rpc published))
     \<longleftrightarrow> (\<exists>response. rpc = Inr response \<and> status response = ''success'')"
  by (cases rpc) (auto simp: put_item_def)

lemma put_item_event:
  "Publish ev \<in> set (put_item (Inr response) published)
   \<Longrightarrow> ev = Item_event ''item_updated'' (data response)"
  by (auto simp: put_item_def split: if_splits)

lemma delete_item_publishes_iff:
  "(\<exists>ev. Publish ev \<in> set (delete_item item_id rpc published))
     \<longleftrightarrow> (\<exists>response. rpc = Inr response \<and> status response = ''success'')"
  by (cases rpc) (auto simp: delete_item_def)

lemma delete_item_event:
  "Publish ev \<in> set (delete_item item_id rpc published) \<Longrightarrow> ev = Id_event ''item_deleted'' item_id"
  by (cases rpc) (auto simp: delete_item_def split: if_splits)

lemma post_items_publishes_iff:
  "(\<exists>ev. Publish ev \<in> set (post_items rpc published)) \<longleftrightarrow> (\<exists>response. rpc = Inr response)"
  by (cases rpc) (auto simp: post_items_def)

text \<open>
  Claim C5 holds for \<^verbatim>\<open>PUT /items/:id\<close> and \<^verbatim>\<open>DELETE /items/:id\<close> (the lemmas above), whose
  handlers test \<^verbatim>\<open>response.status === 'success'\<close>. The handler of \<^verbatim>\<open>POST /items\<close> does not test
  it: on an error reply to \<^verbatim>\<open>create_item\<close> it publishes \<^verbatim>\<open>item_added\<close>, with no item, and answers
  201.
\<close>

theorem post_items_publishes_on_error_reply:
  "post_items (Inr \<lparr>status = ''error'', data = None, message = Some ''null value in column name''\<rparr>) True
     = [Publish (Item_event ''item_added'' (None :: unit option)) :: (unit, nat) effect,
        Respond 201 (Json None)]"
  by (simp add: post_items_def)

lemma post_items_route_on_error_reply:
  "guarded True (Some ''Bearer abc'')
     (\<lambda>token. Inr \<lparr>status = ''success'', data = Some \<lparr>user = Some ()\<rparr>, message = None\<rparr>)
     (post_items
        (Inr \<lparr>status = ''error'', data = None, message = Some ''null value in column name''\<rparr>) True)
     = [Publish (Item_event ''item_added'' None) :: (unit, nat) effect, Respond 201 (Json None)]"
  by (simp add: guarded_def authenticateToken_def bearer_token_def post_items_def)

lemma post_items_route_without_user:
  "guarded True (Some ''Bearer abc'')
     (\<lambda>token. Inr \<lparr>status = ''success'', data = Some \<lparr>user = (None :: unit option)\<rparr>, message = None\<rparr>)
     handler
     = [Respond 504 (Text (Some ''Item service timeout''))]"
  by (simp add: guarded_def authenticateToken_def bearer_token_def)

lemma login_error_reply:
  "status response \<noteq> ''success''
   \<Longrightarrow> login (Inr response) = [Respond 401 (Text (message response))]"
  by (simp add: login_def)

lemma put_item_error_reply:
  "status response \<noteq> ''success''
   \<Longrightarrow> put_item (Inr response) published = [Respond 404 (Text (message response))]"
  by (simp add: put_item_def)

lemma delete_item_error_reply:
  "status response \<noteq> ''success''
   \<Longrightarrow> delete_item item_id (Inr response) published = [Respond 404 (Text (message response))]"
  by (simp add: delete_item_def)

lemma authenticateToken_error_reply:
  "bearer_token authHeader = Some token \<Longrightarrow> verify_token token = Inr response
   \<Longrightarrow> status response \<noteq> ''success''
   \<Longrightarrow> authenticateToken authHeader verify_token = Halt 403"
  by (simp add: authenticateToken_def)

text \<open>
  Claim C6 holds for \<^verbatim>\<open>POST /login\<close> (401), \<^verbatim>\<open>PUT\<close> and \<^verbatim>\<open>DELETE /items/:id\<close> (404) and the
  token check (403), by the lemmas above. The handler of \<^verbatim>\<open>POST /signup\<close> does not test the
  status of the reply: when the user service answers that the username already exists, the
  gateway answers 201, with no body.
\<close>

theorem signup_created_on_error_reply:
  "signup (Inr \<lparr>status = ''error'', data = None, message = Some ''Username already exists''\<rparr>)
     = [Respond 201 (Json (None :: unit option)) :: (unit, nat) effect]"
  by (simp add: signup_def)

section \<open>Claims about the connection at start-up\<close>

lemma rounds_Suc: "rounds (Suc k) = rounds k @ [Try, Sleep 5000]"
  unfolding rounds_def by (induction k) simp_all

lemma tries_rounds: "length (filter (\<lambda>a. a = Try) (rounds k)) = k"
  unfolding rounds_def by (induction k) simp_all

lemma setupRabbitMQ_loop_Fatal:
  "retries \<le> maxRetries \<Longrightarrow> \<forall>i. retries \<le> i \<and> i < maxRetries \<longrightarrow> \<not> connect i
   \<Longrightarrow> setupRabbitMQ_loop connect retries (rounds retries) = (Fatal, rounds maxRetries)"
proof (induction "maxRetries - retries" arbitrary: retries)
  case 0
  then have "retries = maxRetries" by simp
  then show ?case by simp
next
  case (Suc d)
  then have lt: "retries < maxRetries" by simp
  with Suc.prems have fail: "\<not> connect retries" by simp
  have "setupRabbitMQ_loop connect (Suc retries) (rounds (Suc retries)) = (Fatal, rounds maxRetries)"
    using Suc lt by (intro Suc.hyps(1)) auto
  with lt fail show ?case
    by (subst setupRabbitMQ_loop.simps) (simp add: tries_rounds rounds_Suc)
qed

lemma setupRabbitMQ_loop_Connected:
  "retries \<le> k \<Longrightarrow> k < maxRetries \<Longrightarrow> connect k \<Longrightarrow> \<forall>i. retries \<le> i \<and> i < k \<longrightarrow> \<not> connect i
   \<Longrightarrow> setupRabbitMQ_loop connect retries (rounds retries) = (Connected, rounds k @ [Try])"
proof (induction "k - retries" arbitrary: retries)
  case 0
  then have "retries = k" by simp
  with 0 show ?case
    by (subst setupRabbitMQ_loop.simps) (simp add: tries_rounds)
next
  case (Suc d)
  then have lt: "retries < k" by simp
  with Suc.prems have fail: "\<not> connect retries" by simp
  have "setupRabbitMQ_loop connect (Suc retries) (rounds (Suc retries)) = (Connected, rounds k @ [Try])"
    using Suc lt by (intro Suc.hyps(1)) auto
  with lt fail Suc.prems(2) show ?case
    by (subst setupRabbitMQ_loop.simps) (simp add: tries_rounds rounds_Suc)
qed

lemma setupRabbitMQ_cases:
  "(\<exists>k<maxRetries. connect k \<and> (\<forall>i<k. \<not> connect i)
       \<and> setupRabbitMQ connect = (Connected, rounds k @ [Try]))
   \<or> ((\<forall>i<maxRetries. \<not> connect i) \<and> setupRabbitMQ connect = (Fatal, rounds maxRetries))"
proof (cases "\<exists>i<maxRetries. connect i")
  case True
  define k where "k = (LEAST i. i < maxRetries \<and> connect i)"
  from True have k: "k < maxRetries \<and> connect k"
    unfolding k_def by (rule LeastI_ex)
  have least: "\<forall>i<k. \<not> connect i"
  proof (intro allI impI)
    fix i assume "i < k"
    then have "\<not> (i < maxRetries \<and> connect i)"
      unfolding k_def by (rule not_less_Least)
    with \<open>i < k\<close> k show "\<not> connect i" by simp
  qed
  have "setupRabbitMQ_loop connect 0 (rounds 0) = (Connected, rounds k @ [Try])"
    using k least by (intro setupRabbitMQ_loop_Connected) auto
  then have "setupRabbitMQ connect = (Connected, rounds k @ [Try])"
    by (simp add: setupRabbitMQ_def rounds_def)
  with k least show ?thesis by blast
next
  case False
  then have all: "\<forall>i<maxRetries. \<not> connect i" by simp
  have "setupRabbitMQ_loop connect 0 (rounds 0) = (Fatal, rounds maxRetries)"
    using all by (intro setupRabbitMQ_loop_Fatal) auto
  then have "setupRabbitMQ connect = (Fatal, rounds maxRetries)"
    by (simp add: setupRabbitMQ_def rounds_def)
  with all show ?thesis by blast
qed

text \<open>
  Claim C8. Whatever the broker does, \<^verbatim>\<open>setupRabbitMQ\<close> returns (the loop is a total function), and
  its trace is \<open>k\<close> failed rounds, each one attempt followed by one sleep of 5000 ms, with
  \<open>k \<le> maxRetries\<close>, followed by one successful attempt exactly when the result is
  \<open>Connected\<close>. So at most \<open>maxRetries\<close> attempts are made, and every two consecutive attempts
  are separated by the same backoff. The result is \<open>Fatal\<close> only after \<open>maxRetries\<close> failed
  attempts, and then the process exits with status 1 instead of listening; when the result is
  \<open>Connected\<close> the server listens.
\<close>

theorem setupRabbitMQ_bounded_retry:
  "\<exists>k\<le>maxRetries.
      snd (setupRabbitMQ connect)
        = rounds k @ (if fst (setupRabbitMQ connect) = Connected then [Try] else [])
    \<and> length (filter (\<lambda>a. a = Try) (snd (setupRabbitMQ connect))) \<le> maxRetries
    \<and> (\<forall>i<k. \<not> connect i)
    \<and> (fst (setupRabbitMQ connect) = Connected
          \<longrightarrow> k < maxRetries \<and> connect k \<and> start_server connect = Listening port)
    \<and> (fst (setupRabbitMQ connect) = Fatal
          \<longrightarrow> k = maxRetries \<and> start_server connect = Exited 1)"
proof -
  consider
    (conn) k where "k < maxRetries" "connect k" "\<forall>i<k. \<not> connect i"
      "setupRabbitMQ connect = (Connected, rounds k @ [Try])"
  | (fatal) "\<forall>i<maxRetries. \<not> connect i" "setupRabbitMQ connect = (Fatal, rounds maxRetries)"
    using setupRabbitMQ_cases [of connect] by blast
  then show ?thesis
  proof cases
    case conn
    then show ?thesis
      by (intro exI [of _ k]) (simp add: start_server_def tries_rounds)
  next
    case fatal
    then show ?thesis
      by (intro exI [of _ maxRetries]) (simp add: start_server_def tries_rounds)
  qed
qed

theorem setupRabbitMQ_bounded_retry_witness:
  "setupRabbitMQ (\<lambda>n. False) = (Fatal, rounds 5)
   \<and> start_server (\<lambda>n. False) = Exited 1
   \<and> setupRabbitMQ (\<lambda>n. n = 2) = (Connected, rounds 2 @ [Try])
   \<and> start_server (\<lambda>n. n = 2) = Listening 3000"
proof -
  have f: "fst (setupRabbitMQ (\<lambda>n. False)) = Fatal"
    by (simp add: setupRabbitMQ_def maxRetries_def)
  have c: "fst (setupRabbitMQ (\<lambda>n. n = 2)) = Connected"
    by (simp add: setupRabbitMQ_def maxRetries_def)
  from setupRabbitMQ_bounded_retry [of "\<lambda>n. False"] f
  have 1: "setupRabbitMQ (\<lambda>n. False) = (Fatal, rounds 5) \<and> start_server (\<lambda>n. False) = Exited 1"
    by (auto simp: maxRetries_def prod_eq_iff)
  from setupRabbitMQ_bounded_retry [of "\<lambda>n. n = 2"] c
  obtain k where k: "snd (setupRabbitMQ (\<lambda>n. n = 2)) = rounds k @ [Try]" "k < maxRetries"
    "k = 2" "start_server (\<lambda>n. n = 2) = Listening port"
    by (auto simp: maxRetries_def)
  with c have 2: "setupRabbitMQ (\<lambda>n. n = 2) = (Connected, rounds 2 @ [Try])
     \<and> start_server (\<lambda>n. n = 2) = Listening 3000"
    by (simp add: prod_eq_iff port_def)
  from 1 2 show ?thesis by simp
qed

end
